theory Spec2Isabelle
  imports Main "HOL-Library.Word" "HOL-Library.AList"
begin

section \<open>The rendering pool: src/services/puppeteerPool.service.ts\<close>

text \<open>
  The pool is JavaScript on one event loop. Every \<^verbatim>\<open>async\<close> method runs without
  interruption up to its next \<^verbatim>\<open>await\<close>; there it is suspended and other callbacks
  run. The model follows this: each stretch of code between two suspension points is one
  function on the pool's state, and an event of the machine below runs one such stretch.
  What Puppeteer and the clock answer is not computed by the program; it is an argument
  of the event (the page handle, the screenshot, whether \<^verbatim>\<open>page.close()\<close> rejects,
  \<^verbatim>\<open>Date.now()\<close>, the identifiers drawn from \<^verbatim>\<open>Math.random()\<close>).
\<close>

subsection \<open>Data\<close>

type_synonym buffer = "8 word list"

definition POOL_SIZE :: nat where
  "POOL_SIZE = 8"

definition MAX_PAGES_PER_BROWSER :: int where
  "MAX_PAGES_PER_BROWSER = 10"

definition BROWSER_TIMEOUT :: int where
  "BROWSER_TIMEOUT = 30 * 60 * 1000"

definition QUEUE_TIMEOUT :: int where
  "QUEUE_TIMEOUT = 60 * 1000"

definition BROWSER_RESTART_THRESHOLD :: int where
  "BROWSER_RESTART_THRESHOLD = 100"

text \<open>The errors the pool raises, one constructor for each \<^verbatim>\<open>new Error(...)\<close> of the
  source; \<open>PuppeteerError\<close> stands for any rejection of a Puppeteer call.\<close>

datatype error =
    ShutdownInProgress
  | BrowserUnavailable
  | PuppeteerError
  | EmptyScreenshot
  | InvalidJPEG
  | GenerationTimeout
  | QueueTimeout
  | ServiceStopping

datatype outcome = Fulfilled buffer | Rejected error

record PageTaskOptions =
  html :: string
  viewportWidth :: int
  viewportHeight :: int
  quality :: int
  optimizeForSpeed :: bool

text \<open>\<^verbatim>\<open>interface BrowserInstance\<close>. The Puppeteer \<^verbatim>\<open>Browser\<close> and \<^verbatim>\<open>Page\<close> objects
  are opaque handles; \<^verbatim>\<open>pages\<close> is a JavaScript \<^verbatim>\<open>Map\<close>, kept as an association list
  in insertion order.\<close>

record BrowserInstance =
  browser :: nat
  pages :: "(string \<times> nat) list"
  activePages :: int
  createdAt :: int
  lastUsed :: int
  processingTasks :: int

text \<open>An entry of \<^verbatim>\<open>processingQueue\<close>. The callbacks \<^verbatim>\<open>resolve\<close> and \<^verbatim>\<open>reject\<close>
  of the entry are represented by the task's id: calling one appends to the log
  \<open>settled\<close> of the pool. \<open>task_seq\<close> is not a field of the source: it numbers the
  calls of \<^verbatim>\<open>generateImage\<close> in the order they were made, so that "submitted before"
  can be stated.\<close>

record QueuedTask =
  task_id :: string
  task_options :: PageTaskOptions
  task_createdAt :: int
  task_seq :: nat

text \<open>A call of \<^verbatim>\<open>executeTask\<close> suspended at one of its awaits: the task, the
  \<^verbatim>\<open>browserId\<close> and \<^verbatim>\<open>pageId\<close> it holds, and its variable \<^verbatim>\<open>page\<close>
  (\<open>None\<close> while it is still \<^verbatim>\<open>null\<close>).\<close>

record RunningTask =
  run_task :: QueuedTask
  run_browserId :: string
  run_pageId :: string
  run_page :: "nat option"

text \<open>The fields of the class, then the bookkeeping of the model: \<open>settled\<close> logs the
  calls of \<^verbatim>\<open>resolve\<close>/\<open>reject\<close>, \<open>scheduledDestroy\<close> the calls
  \<^verbatim>\<open>setImmediate(() => this.destroyBrowser(browserId))\<close>, \<open>dispatched\<close> the tasks
  in the order \<^verbatim>\<open>processQueue\<close> shifted them off the queue; \<open>awaitingBrowser\<close>,
  \<open>launching\<close>, \<open>running\<close> and \<open>destroying\<close> hold the suspended calls of
  \<^verbatim>\<open>processQueue\<close>, \<^verbatim>\<open>createBrowser\<close>, \<^verbatim>\<open>executeTask\<close> and
  \<^verbatim>\<open>destroyBrowser\<close>. The metric \<^verbatim>\<open>averageTaskTime\<close> (a floating-point mean) is
  left out; nothing below reads it.\<close>

record pool =
  browserPool :: "(string \<times> BrowserInstance) list"
  availableBrowsers :: "string list"
  processingQueue :: "QueuedTask list"
  totalTasksProcessed :: int
  activeTasks :: int
  browsersCreated :: int
  browsersDestroyed :: int
  peakConcurrency :: int
  shutdownInProgress :: bool
  settled :: "(string \<times> outcome) list"
  scheduledDestroy :: "string list"
  dispatched :: "QueuedTask list"
  submitCount :: nat
  awaitingBrowser :: "string list"
  launching :: nat
  running :: "RunningTask list"
  destroying :: "string list"

definition emptyPool :: pool where
  "emptyPool = \<lparr> browserPool = [], availableBrowsers = [], processingQueue = [],
     totalTasksProcessed = 0, activeTasks = 0, browsersCreated = 0, browsersDestroyed = 0,
     peakConcurrency = 0, shutdownInProgress = False, settled = [], scheduledDestroy = [],
     dispatched = [], submitCount = 0, awaitingBrowser = [], launching = 0, running = [],
     destroying = [] \<rparr>"

subsection \<open>Screenshot validation (executeTask, lines 407-422)\<close>

text \<open>\<^verbatim>\<open>buf[i]\<close> on a typed array: \<^verbatim>\<open>undefined\<close> out of range.\<close>

definition byteAt :: "buffer \<Rightarrow> nat \<Rightarrow> 8 word option" where
  "byteAt b i = (if i < length b then Some (b ! i) else None)"

definition isValidJPEG :: "buffer \<Rightarrow> bool" where
  "isValidJPEG screenshot =
     (let jpegHeader = take 3 screenshot
      in byteAt jpegHeader 0 = Some 0xFF \<and> byteAt jpegHeader 1 = Some 0xD8
         \<and> byteAt jpegHeader 2 = Some 0xFF)"

text \<open>The screenshot is \<open>None\<close> when Puppeteer hands back a falsy value.\<close>

definition validateScreenshot :: "buffer option \<Rightarrow> error + buffer" where
  "validateScreenshot screenshot =
     (case screenshot of
        None \<Rightarrow> Inl EmptyScreenshot
      | Some b \<Rightarrow>
          if length b = 0 then Inl EmptyScreenshot
          else if \<not> isValidJPEG b then Inl InvalidJPEG
          else Inr b)"

subsection \<open>executeTask on one browser instance\<close>

text \<open>Lines 336-338: the synchronous start of the \<^verbatim>\<open>try\<close> block.\<close>

definition taskBegin :: "int \<Rightarrow> BrowserInstance \<Rightarrow> BrowserInstance" where
  "taskBegin now bi =
     bi\<lparr> activePages := activePages bi + 1,
         processingTasks := processingTasks bi + 1,
         lastUsed := now \<rparr>"

text \<open>Line 342: \<^verbatim>\<open>browserInstance.pages.set(pageId, page)\<close>.\<close>

definition pageOpened :: "string \<Rightarrow> nat \<Rightarrow> BrowserInstance \<Rightarrow> BrowserInstance" where
  "pageOpened pageId page bi = bi\<lparr> pages := AList.update pageId page (pages bi) \<rparr>"

text \<open>Lines 423-435, the \<^verbatim>\<open>finally\<close> block: when \<^verbatim>\<open>page\<close> is set,
  \<^verbatim>\<open>await page.close()\<close> and then \<^verbatim>\<open>pages.delete(pageId)\<close>, both inside one
  \<^verbatim>\<open>try\<close> whose \<^verbatim>\<open>catch\<close> only logs; then both counters are decremented.\<close>

definition taskFinally :: "string \<Rightarrow> bool \<Rightarrow> bool \<Rightarrow> BrowserInstance \<Rightarrow> BrowserInstance" where
  "taskFinally pageId hasPage closeThrows bi =
     (let bi1 = (if hasPage \<and> \<not> closeThrows
                 then bi\<lparr> pages := AList.delete pageId (pages bi) \<rparr> else bi)
      in bi1\<lparr> activePages := activePages bi1 - 1,
              processingTasks := processingTasks bi1 - 1 \<rparr>)"

text \<open>A suspended \<^verbatim>\<open>executeTask\<close> holds a reference to its \<^verbatim>\<open>browserInstance\<close>
  object. While the object is in \<^verbatim>\<open>browserPool\<close> the mutation is a mutation of the
  pool's entry. Once \<^verbatim>\<open>destroyBrowser\<close> has deleted the entry the object is
  unreachable from the pool, and the pool does not change.\<close>

definition withBrowser :: "string \<Rightarrow> (BrowserInstance \<Rightarrow> BrowserInstance) \<Rightarrow> pool \<Rightarrow> pool" where
  "withBrowser browserId f st =
     (case map_of (browserPool st) browserId of
        None \<Rightarrow> st
      | Some bi \<Rightarrow> st\<lparr> browserPool := AList.update browserId (f bi) (browserPool st) \<rparr>)"

text \<open>Lines 423-441 on the pool: the \<^verbatim>\<open>finally\<close> block, then the restart check
  \<^verbatim>\<open>if (browserInstance.processingTasks >= this.BROWSER_RESTART_THRESHOLD)\<close>,
  which reads the counter after the decrement.\<close>

definition executeTaskFinally :: "string \<Rightarrow> string \<Rightarrow> bool \<Rightarrow> bool \<Rightarrow> pool \<Rightarrow> pool" where
  "executeTaskFinally browserId pageId hasPage closeThrows st =
     (let st1 = withBrowser browserId (taskFinally pageId hasPage closeThrows) st
      in case map_of (browserPool st1) browserId of
           None \<Rightarrow> st1
         | Some bi \<Rightarrow>
             if processingTasks bi \<ge> BROWSER_RESTART_THRESHOLD
             then st1\<lparr> scheduledDestroy := scheduledDestroy st1 @ [browserId] \<rparr>
             else st1)"

text \<open>What Puppeteer did for one task: \<^verbatim>\<open>newPage()\<close> rejected; the page was
  created and a later call (request interception, viewport, \<^verbatim>\<open>setContent\<close>, fonts,
  \<^verbatim>\<open>screenshot\<close>) rejected; or \<^verbatim>\<open>screenshot\<close> resolved.\<close>

datatype render = NewPageThrows | StageThrows | Captured "buffer option"

definition renderResult :: "render \<Rightarrow> error + buffer" where
  "renderResult r =
     (case r of
        NewPageThrows \<Rightarrow> Inl PuppeteerError
      | StageThrows \<Rightarrow> Inl PuppeteerError
      | Captured screenshot \<Rightarrow> validateScreenshot screenshot)"

text \<open>\<^verbatim>\<open>executeTask\<close> run from its first line to its last with nothing else scheduled
  in between: the value returned or thrown, and the pool afterwards.\<close>

definition executeTask ::
  "string \<Rightarrow> string \<Rightarrow> nat \<Rightarrow> int \<Rightarrow> render \<Rightarrow> bool \<Rightarrow> pool \<Rightarrow> (error + buffer) \<times> pool" where
  "executeTask browserId pageId page now r closeThrows st =
     (case map_of (browserPool st) browserId of
        None \<Rightarrow> (Inl BrowserUnavailable, st)
      | Some _ \<Rightarrow>
          let st1 = withBrowser browserId (taskBegin now) st;
              st2 = (if r = NewPageThrows then st1
                     else withBrowser browserId (pageOpened pageId page) st1);
              st3 = executeTaskFinally browserId pageId (r \<noteq> NewPageThrows) closeThrows st2
          in (renderResult r, st3))"

subsection \<open>The pool's methods, one definition for each stretch between awaits\<close>

text \<open>\<^verbatim>\<open>createBrowser\<close>, lines 170-190: what runs once \<^verbatim>\<open>puppeteer.launch\<close> has
  resolved. \<^verbatim>\<open>Map.set\<close> replaces the value of a key already present and appends a
  new key, which is \<open>AList.update\<close>.\<close>

definition createBrowser :: "string \<Rightarrow> nat \<Rightarrow> int \<Rightarrow> pool \<Rightarrow> pool" where
  "createBrowser browserId handle now st =
     st\<lparr> browserPool :=
           AList.update browserId
             \<lparr> browser = handle, pages = [], activePages = 0, createdAt = now,
               lastUsed = now, processingTasks = 0 \<rparr>
             (browserPool st),
         availableBrowsers := availableBrowsers st @ [browserId],
         browsersCreated := browsersCreated st + 1 \<rparr>"

text \<open>\<^verbatim>\<open>getAvailableBrowser\<close>, lines 291-299: the first id of \<^verbatim>\<open>availableBrowsers\<close>
  whose instance exists and has \<^verbatim>\<open>activePages < MAX_PAGES_PER_BROWSER\<close>.\<close>

fun findAvailable :: "(string \<times> BrowserInstance) list \<Rightarrow> string list \<Rightarrow> string option" where
  "findAvailable bp [] = None"
| "findAvailable bp (browserId # rest) =
     (case map_of bp browserId of
        Some bi \<Rightarrow>
          if activePages bi < MAX_PAGES_PER_BROWSER then Some browserId
          else findAvailable bp rest
      | None \<Rightarrow> findAvailable bp rest)"

datatype capacity = Found string | MustLaunch | NoCapacity

text \<open>Lines 289-316. \<open>MustLaunch\<close>: the pool is below \<^verbatim>\<open>POOL_SIZE\<close> and the method is
  suspended in \<^verbatim>\<open>await this.createBrowser()\<close>. \<open>NoCapacity\<close>: it returns
  \<^verbatim>\<open>null\<close>.\<close>

definition getAvailableBrowser :: "pool \<Rightarrow> capacity" where
  "getAvailableBrowser st =
     (case findAvailable (browserPool st) (availableBrowsers st) of
        Some browserId \<Rightarrow> Found browserId
      | None \<Rightarrow> if length (browserPool st) < POOL_SIZE then MustLaunch else NoCapacity)"

text \<open>\<^verbatim>\<open>processQueue\<close>, lines 243-247, up to \<^verbatim>\<open>await this.getAvailableBrowser()\<close>.
  The method is \<^verbatim>\<open>async\<close>: even when a browser is found at once, the rest of
  \<^verbatim>\<open>processQueue\<close> runs later, as a continuation, and the caller goes on first. The
  found id waits in \<open>awaitingBrowser\<close>. With \<^verbatim>\<open>null\<close> the continuation returns
  without an effect, so nothing is recorded for it.\<close>

definition processQueue :: "pool \<Rightarrow> pool" where
  "processQueue st =
     (if length (processingQueue st) = 0 then st
      else case getAvailableBrowser st of
             Found browserId \<Rightarrow> st\<lparr> awaitingBrowser := awaitingBrowser st @ [browserId] \<rparr>
           | MustLaunch \<Rightarrow> st\<lparr> launching := launching st + 1 \<rparr>
           | NoCapacity \<Rightarrow> st)"

text \<open>\<^verbatim>\<open>generateImage\<close>, lines 204-237. With \<^verbatim>\<open>shutdownInProgress\<close> the method
  throws, which rejects the promise it returns; the rejection is logged under the id the
  call would have drawn. Otherwise the task is pushed, the timer is armed (the event
  \<open>TimeoutFires\<close> below) and \<^verbatim>\<open>processQueue\<close> is called.\<close>

definition generateImage :: "string \<Rightarrow> PageTaskOptions \<Rightarrow> int \<Rightarrow> pool \<Rightarrow> pool" where
  "generateImage taskId opts now st =
     (if shutdownInProgress st
      then st\<lparr> settled := settled st @ [(taskId, Rejected ShutdownInProgress)] \<rparr>
      else processQueue
             (st\<lparr> processingQueue := processingQueue st @
                     [\<lparr> task_id = taskId, task_options = opts, task_createdAt = now,
                        task_seq = submitCount st \<rparr>],
                  submitCount := submitCount st + 1 \<rparr>))"

text \<open>\<^verbatim>\<open>findIndex\<close> followed by \<^verbatim>\<open>splice(index, 1)\<close>: the first match goes.\<close>

fun removeFirst :: "('a \<Rightarrow> bool) \<Rightarrow> 'a list \<Rightarrow> 'a list" where
  "removeFirst P [] = []"
| "removeFirst P (x # xs) = (if P x then xs else x # removeFirst P xs)"

text \<open>The \<^verbatim>\<open>setTimeout\<close> callback of \<^verbatim>\<open>generateImage\<close>, lines 224-232.\<close>

definition timeoutFires :: "string \<Rightarrow> pool \<Rightarrow> pool" where
  "timeoutFires taskId st =
     (if \<exists>t \<in> set (processingQueue st). task_id t = taskId
      then st\<lparr> processingQueue := removeFirst (\<lambda>t. task_id t = taskId) (processingQueue st),
               settled := settled st @ [(taskId, Rejected GenerationTimeout)] \<rparr>
      else st)"

text \<open>\<^verbatim>\<open>processQueue\<close>, lines 247-260, resumed with the browser id it awaited, and the
  start of \<^verbatim>\<open>executeTask\<close> (lines 325-341) up to \<^verbatim>\<open>await browser.newPage()\<close>.
  When the instance is gone \<^verbatim>\<open>executeTask\<close> throws at once and \<^verbatim>\<open>processQueue\<close>
  rejects the task in its \<^verbatim>\<open>catch\<close> and decrements \<^verbatim>\<open>activeTasks\<close> in its
  \<^verbatim>\<open>finally\<close>.\<close>

definition resumeProcessQueue :: "string \<Rightarrow> int \<Rightarrow> pool \<Rightarrow> pool" where
  "resumeProcessQueue pageId now st =
     (case awaitingBrowser st of
        [] \<Rightarrow> st
      | browserId # rest \<Rightarrow>
          let st0 = st\<lparr> awaitingBrowser := rest \<rparr>
          in case processingQueue st0 of
               [] \<Rightarrow> st0
             | task # q \<Rightarrow>
                 let st1 = st0\<lparr> processingQueue := q,
                                dispatched := dispatched st0 @ [task],
                                activeTasks := activeTasks st0 + 1,
                                peakConcurrency :=
                                  max (peakConcurrency st0) (activeTasks st0 + 1) \<rparr>
                 in case map_of (browserPool st1) browserId of
                      None \<Rightarrow>
                        st1\<lparr> settled := settled st1 @ [(task_id task, Rejected BrowserUnavailable)],
                             activeTasks := activeTasks st1 - 1 \<rparr>
                    | Some _ \<Rightarrow>
                        (withBrowser browserId (taskBegin now) st1)
                          \<lparr> running := running st1 @
                               [\<lparr> run_task = task, run_browserId = browserId,
                                  run_pageId = pageId, run_page = None \<rparr>] \<rparr>)"

text \<open>\<^verbatim>\<open>executeTask\<close>, line 342, once \<^verbatim>\<open>newPage()\<close> has resolved.\<close>

definition newPageResolved :: "string \<Rightarrow> nat \<Rightarrow> pool \<Rightarrow> pool" where
  "newPageResolved taskId page st =
     (case find (\<lambda>r. task_id (run_task r) = taskId \<and> run_page r = None) (running st) of
        None \<Rightarrow> st
      | Some rt \<Rightarrow>
          (withBrowser (run_browserId rt) (pageOpened (run_pageId rt) page) st)
            \<lparr> running :=
                 map (\<lambda>r. if r = rt then r\<lparr> run_page := Some page \<rparr> else r) (running st) \<rparr>)"

text \<open>The end of a task: the remaining awaits of \<^verbatim>\<open>executeTask\<close> have resolved or one
  has rejected (\<open>r\<close>), the \<^verbatim>\<open>finally\<close> block runs, and \<^verbatim>\<open>processQueue\<close>
  (lines 261-283) resolves or rejects the task and decrements \<^verbatim>\<open>activeTasks\<close>.
  \<open>NewPageThrows\<close> is the end of a task whose \<^verbatim>\<open>page\<close> is still \<^verbatim>\<open>null\<close>, the
  other two of a task whose page is open.\<close>

definition taskEnds :: "string \<Rightarrow> render \<Rightarrow> bool \<Rightarrow> pool \<Rightarrow> pool" where
  "taskEnds taskId r closeThrows st =
     (case find (\<lambda>rt. task_id (run_task rt) = taskId
                       \<and> (run_page rt = None) = (r = NewPageThrows)) (running st) of
        None \<Rightarrow> st
      | Some rt \<Rightarrow>
          let st1 = executeTaskFinally (run_browserId rt) (run_pageId rt)
                      (run_page rt \<noteq> None) closeThrows
                      (st\<lparr> running := removeFirst (\<lambda>x. x = rt) (running st) \<rparr>);
              st2 = (case renderResult r of
                       Inr result \<Rightarrow>
                         st1\<lparr> totalTasksProcessed := totalTasksProcessed st1 + 1,
                              settled := settled st1 @ [(taskId, Fulfilled result)] \<rparr>
                     | Inl e \<Rightarrow> st1\<lparr> settled := settled st1 @ [(taskId, Rejected e)] \<rparr>)
          in st2\<lparr> activeTasks := activeTasks st2 - 1 \<rparr>)"

text \<open>\<^verbatim>\<open>destroyBrowser\<close>, lines 447-466: it returns at once for an id not in the pool,
  otherwise it is suspended while pages and browser close.\<close>

definition destroyBrowser :: "string \<Rightarrow> pool \<Rightarrow> pool" where
  "destroyBrowser browserId st =
     (case map_of (browserPool st) browserId of
        None \<Rightarrow> st
      | Some _ \<Rightarrow> st\<lparr> destroying := destroying st @ [browserId] \<rparr>)"

text \<open>Lines 466-483: \<^verbatim>\<open>browser.close()\<close> has resolved and the bookkeeping is removed
  (\<^verbatim>\<open>indexOf\<close> and \<^verbatim>\<open>splice\<close> take the first occurrence out), or it has rejected
  and the \<^verbatim>\<open>catch\<close> only logs.\<close>

definition destroyBrowserCloses :: "string \<Rightarrow> bool \<Rightarrow> pool \<Rightarrow> pool" where
  "destroyBrowserCloses browserId closeThrows st =
     (if browserId \<notin> set (destroying st) then st
      else let st1 = st\<lparr> destroying := remove1 browserId (destroying st) \<rparr>
           in if closeThrows then st1
              else st1\<lparr> browserPool := AList.delete browserId (browserPool st1),
                        availableBrowsers := remove1 browserId (availableBrowsers st1),
                        browsersDestroyed := browsersDestroyed st1 + 1 \<rparr>)"

text \<open>The interval callback of \<^verbatim>\<open>startCleanupTask\<close>, lines 498-529: one entry of the
  loop over \<^verbatim>\<open>browserPool\<close>, then the whole callback.\<close>

definition sweepBrowser :: "int \<Rightarrow> string \<times> BrowserInstance \<Rightarrow> pool \<Rightarrow> pool" where
  "sweepBrowser now entry st =
     (case entry of
        (browserId, bi) \<Rightarrow>
          if now - createdAt bi > BROWSER_TIMEOUT then destroyBrowser browserId st
          else if activePages bi = 0 then withBrowser browserId (\<lambda>b. b\<lparr> pages := [] \<rparr>) st
          else st)"

definition cleanup :: "int \<Rightarrow> pool \<Rightarrow> pool" where
  "cleanup now st =
     (let st1 = fold (sweepBrowser now) (browserPool st) st;
          expired = (\<lambda>t. now - task_createdAt t > QUEUE_TIMEOUT)
      in st1\<lparr> processingQueue := filter (\<lambda>t. \<not> expired t) (processingQueue st1),
              settled := settled st1 @
                map (\<lambda>t. (task_id t, Rejected QueueTimeout))
                    (filter expired (processingQueue st1)) \<rparr>)"

text \<open>\<^verbatim>\<open>shutdown\<close>, lines 562-585, up to \<^verbatim>\<open>await Promise.all(destroyPromises)\<close>.\<close>

definition shutdown :: "pool \<Rightarrow> pool" where
  "shutdown st =
     (let st1 = st\<lparr> shutdownInProgress := True,
                    settled := settled st @
                      map (\<lambda>t. (task_id t, Rejected ServiceStopping)) (processingQueue st),
                    processingQueue := [] \<rparr>
      in fold destroyBrowser (map fst (browserPool st1)) st1)"

text \<open>\<^verbatim>\<open>getMetrics\<close>, lines 546-557: the four values it computes.\<close>

record poolMetrics =
  totalBrowsers :: nat
  availableBrowsersCount :: nat
  queueSize :: nat
  totalPages :: nat

definition getMetrics :: "pool \<Rightarrow> poolMetrics" where
  "getMetrics st =
     \<lparr> totalBrowsers = length (browserPool st),
       availableBrowsersCount = length (availableBrowsers st),
       queueSize = length (processingQueue st),
       totalPages = sum_list (map (\<lambda>(k, b). length (pages b)) (browserPool st)) \<rparr>"

subsection \<open>The pool as a machine\<close>

text \<open>One event runs one stretch of code. \<open>GenerateImage\<close> is a call of the public
  method; \<open>ProcessQueue\<close> a call of \<^verbatim>\<open>processQueue\<close> from the 100 ms interval or from
  \<^verbatim>\<open>setImmediate\<close>; \<open>InitLaunched\<close> a browser created by \<^verbatim>\<open>initialize\<close>;
  \<open>LaunchResolved\<close> and \<open>LaunchRejected\<close> end a launch started by
  \<^verbatim>\<open>getAvailableBrowser\<close>; \<open>DestroyBrowser\<close> is a call of \<^verbatim>\<open>destroyBrowser\<close>
  (from the \<^verbatim>\<open>disconnected\<close> handler or from \<^verbatim>\<open>setImmediate\<close>).\<close>

datatype event =
    GenerateImage string PageTaskOptions int
  | TimeoutFires string
  | ProcessQueue
  | InitLaunched string nat int
  | LaunchResolved string nat int
  | LaunchRejected
  | Resume string int
  | NewPageResolved string nat
  | TaskEnds string render bool
  | DestroyBrowser string
  | DestroyBrowserCloses string bool
  | Cleanup int
  | Shutdown

fun step :: "event \<Rightarrow> pool \<Rightarrow> pool" where
  "step (GenerateImage taskId opts now) st = generateImage taskId opts now st"
| "step (TimeoutFires taskId) st = timeoutFires taskId st"
| "step ProcessQueue st = processQueue st"
| "step (InitLaunched browserId handle now) st = createBrowser browserId handle now st"
| "step (LaunchResolved browserId handle now) st =
     (if launching st = 0 then st
      else (createBrowser browserId handle now st)
             \<lparr> launching := launching st - 1,
               awaitingBrowser := awaitingBrowser st @ [browserId] \<rparr>)"
| "step LaunchRejected st = st\<lparr> launching := launching st - 1 \<rparr>"
| "step (Resume pageId now) st = resumeProcessQueue pageId now st"
| "step (NewPageResolved taskId page) st = newPageResolved taskId page st"
| "step (TaskEnds taskId r closeThrows) st = taskEnds taskId r closeThrows st"
| "step (DestroyBrowser browserId) st = destroyBrowser browserId st"
| "step (DestroyBrowserCloses browserId closeThrows) st =
     destroyBrowserCloses browserId closeThrows st"
| "step (Cleanup now) st = cleanup now st"
| "step Shutdown st = shutdown st"

fun run :: "event list \<Rightarrow> pool \<Rightarrow> pool" where
  "run [] st = st"
| "run (e # es) st = run es (step e st)"

text \<open>Browser ids are \<^verbatim>\<open>browser_${Date.now()}_${random}\<close>. The runs considered for the
  bookkeeping invariant are those in which a new id is not the id of a browser
  currently in the pool.\<close>

fun freshBrowserId :: "event \<Rightarrow> pool \<Rightarrow> bool" where
  "freshBrowserId (InitLaunched browserId handle now) st =
     (browserId \<notin> fst ` set (browserPool st))"
| "freshBrowserId (LaunchResolved browserId handle now) st =
     (browserId \<notin> fst ` set (browserPool st))"
| "freshBrowserId e st = True"

fun freshBrowserIds :: "event list \<Rightarrow> pool \<Rightarrow> bool" where
  "freshBrowserIds [] st = True"
| "freshBrowserIds (e # es) st = (freshBrowserId e st \<and> freshBrowserIds es (step e st))"

subsection \<open>Example inputs\<close>

definition sampleOptions :: PageTaskOptions where
  "sampleOptions = \<lparr> html = ''<html></html>'', viewportWidth = 550, viewportHeight = 800,
     quality = 90, optimizeForSpeed = False \<rparr>"

definition sampleJpeg :: buffer where
  "sampleJpeg = [0xFF, 0xD8, 0xFF, 0xE0, 0x00, 0x10]"

definition taskName :: "nat \<Rightarrow> string" where
  "taskName i = replicate (Suc i) CHR ''t''"

definition pageName :: "nat \<Rightarrow> string" where
  "pageName i = replicate (Suc i) CHR ''p''"

text \<open>One browser from \<^verbatim>\<open>initialize\<close>, then ten tasks, each submitted and picked up
  before the next arrives: the browser ends with ten pages in use.\<close>

definition tenTasksOneByOne :: "event list" where
  "tenTasksOneByOne =
     InitLaunched ''b1'' 1 0 #
     concat (map (\<lambda>i. [GenerateImage (taskName i) sampleOptions 5, Resume (pageName i) 6])
                 [0..<10])"

subsection \<open>Fields the methods leave alone\<close>

lemma fold_frame:
  assumes "\<And>x s. g (f x s) = g s"
  shows "g (fold f xs st) = g st"
  using assms by (induction xs arbitrary: st) simp_all

lemma withBrowser_frame:
  "availableBrowsers (withBrowser b f st) = availableBrowsers st"
  "processingQueue (withBrowser b f st) = processingQueue st"
  "settled (withBrowser b f st) = settled st"
  "dispatched (withBrowser b f st) = dispatched st"
  "submitCount (withBrowser b f st) = submitCount st"
  "scheduledDestroy (withBrowser b f st) = scheduledDestroy st"
  by (simp_all add: withBrowser_def split: option.splits)

lemma executeTaskFinally_frame:
  "processingQueue (executeTaskFinally b p h c st) = processingQueue st"
  "settled (executeTaskFinally b p h c st) = settled st"
  "dispatched (executeTaskFinally b p h c st) = dispatched st"
  "submitCount (executeTaskFinally b p h c st) = submitCount st"
  by (simp_all add: executeTaskFinally_def Let_def withBrowser_frame split: option.splits)

lemma destroyBrowser_frame:
  "processingQueue (destroyBrowser b st) = processingQueue st"
  "settled (destroyBrowser b st) = settled st"
  "dispatched (destroyBrowser b st) = dispatched st"
  "submitCount (destroyBrowser b st) = submitCount st"
  by (simp_all add: destroyBrowser_def split: option.splits)

lemma processQueue_frame:
  "processingQueue (processQueue st) = processingQueue st"
  "settled (processQueue st) = settled st"
  "dispatched (processQueue st) = dispatched st"
  "submitCount (processQueue st) = submitCount st"
  by (simp_all add: processQueue_def split: capacity.splits)

lemma sweepBrowser_frame:
  "processingQueue (sweepBrowser now e st) = processingQueue st"
  "settled (sweepBrowser now e st) = settled st"
  "dispatched (sweepBrowser now e st) = dispatched st"
  "submitCount (sweepBrowser now e st) = submitCount st"
  by (simp_all add: sweepBrowser_def withBrowser_frame destroyBrowser_frame split: prod.splits)

lemma sweep_fold_frame:
  "processingQueue (fold (sweepBrowser now) xs st) = processingQueue st"
  "settled (fold (sweepBrowser now) xs st) = settled st"
  "dispatched (fold (sweepBrowser now) xs st) = dispatched st"
  "submitCount (fold (sweepBrowser now) xs st) = submitCount st"
  by (rule fold_frame, simp add: sweepBrowser_frame)+

lemma destroy_fold_frame:
  "processingQueue (fold destroyBrowser xs st) = processingQueue st"
  "settled (fold destroyBrowser xs st) = settled st"
  "dispatched (fold destroyBrowser xs st) = dispatched st"
  "submitCount (fold destroyBrowser xs st) = submitCount st"
  by (rule fold_frame, simp add: destroyBrowser_frame)+

lemmas poolFrames =
  withBrowser_frame executeTaskFinally_frame destroyBrowser_frame processQueue_frame
  sweepBrowser_frame sweep_fold_frame destroy_fold_frame

subsection \<open>Bookkeeping: the id list and the map\<close>

definition book :: "pool \<Rightarrow> string list \<times> string list" where
  "book st = (map fst (browserPool st), availableBrowsers st)"

definition inSync :: "pool \<Rightarrow> bool" where
  "inSync st =
     (availableBrowsers st = map fst (browserPool st) \<and> distinct (map fst (browserPool st)))"

lemma book_withBrowser: "book (withBrowser b f st) = book st"
  by (simp add: book_def withBrowser_def update_keys map_of_eq_None_iff split: option.splits)

lemma book_fold:
  assumes "\<And>x s. book (f x s) = book s"
  shows "book (fold f xs st) = book st"
  using assms by (induction xs arbitrary: st) simp_all

lemma book_processQueue: "book (processQueue st) = book st"
  by (simp add: book_def processQueue_def split: capacity.splits)

lemma book_generateImage: "book (generateImage t opts now st) = book st"
proof -
  have "book (processQueue s) = book s" for s by (rule book_processQueue)
  then show ?thesis by (simp add: generateImage_def) (simp add: book_def)
qed

lemma book_timeoutFires: "book (timeoutFires t st) = book st"
  by (simp add: book_def timeoutFires_def)

lemma book_resume: "book (resumeProcessQueue p now st) = book st"
  using book_withBrowser
  by (simp add: resumeProcessQueue_def Let_def book_def split: list.splits option.splits)

lemma book_newPage: "book (newPageResolved t p st) = book st"
  using book_withBrowser
  by (simp add: newPageResolved_def Let_def book_def split: list.splits option.splits)

lemma book_executeTaskFinally: "book (executeTaskFinally b p h c st) = book st"
  using book_withBrowser
  by (simp add: executeTaskFinally_def Let_def book_def split: option.splits)

lemma book_taskEnds: "book (taskEnds t r c st) = book st"
proof (cases "find (\<lambda>rt. task_id (run_task rt) = t
                 \<and> (run_page rt = None) = (r = NewPageThrows)) (running st)")
  case None
  then show ?thesis by (simp add: taskEnds_def)
next
  case (Some rt)
  have "book (executeTaskFinally b p h c s) = book s" for b p h s
    by (rule book_executeTaskFinally)
  then show ?thesis using Some
    by (simp add: taskEnds_def Let_def split: sum.splits) (simp add: book_def)
qed

lemma book_destroyBrowser: "book (destroyBrowser b st) = book st"
  by (simp add: book_def destroyBrowser_def split: option.splits)

lemma book_sweepBrowser: "book (sweepBrowser now e st) = book st"
  using book_withBrowser book_destroyBrowser
  by (simp add: sweepBrowser_def split: prod.splits)

lemma book_cleanup: "book (cleanup now st) = book st"
proof -
  have "book (fold (sweepBrowser now) xs s) = book s" for xs s
    by (rule book_fold) (rule book_sweepBrowser)
  then show ?thesis by (simp add: cleanup_def Let_def) (simp add: book_def)
qed

lemma book_shutdown: "book (shutdown st) = book st"
proof -
  have "book (fold destroyBrowser xs s) = book s" for xs s
    by (rule book_fold) (rule book_destroyBrowser)
  then show ?thesis by (simp add: shutdown_def Let_def) (simp add: book_def)
qed

lemma inSync_book: "book s' = book s \<Longrightarrow> inSync s \<Longrightarrow> inSync s'"
  by (simp add: inSync_def book_def)

lemma inSync_createBrowser:
  assumes "inSync st" "b \<notin> fst ` set (browserPool st)"
  shows "inSync (createBrowser b h now st)"
  using assms by (simp add: inSync_def createBrowser_def update_keys)

lemma inSync_destroyCloses:
  assumes "inSync st"
  shows "inSync (destroyBrowserCloses b c st)"
  using assms
  by (simp add: inSync_def destroyBrowserCloses_def Let_def delete_keys
      distinct_remove1_removeAll distinct_removeAll)

lemma inSync_step:
  assumes "inSync st" "freshBrowserId e st"
  shows "inSync (step e st)"
proof (cases e)
  case (InitLaunched b h n)
  then show ?thesis using assms by (simp add: inSync_createBrowser)
next
  case (LaunchResolved b h n)
  have "inSync (createBrowser b h n st)"
    using assms LaunchResolved by (simp add: inSync_createBrowser)
  then have "inSync ((createBrowser b h n st)
      \<lparr>launching := launching st - 1, awaitingBrowser := awaitingBrowser st @ [b]\<rparr>)"
    by (simp add: inSync_def)
  then show ?thesis using assms LaunchResolved by simp
next
  case LaunchRejected
  then show ?thesis using assms by (simp add: inSync_def)
next
  case (DestroyBrowserCloses b c)
  then show ?thesis using assms by (simp add: inSync_destroyCloses)
qed (use assms in \<open>auto intro: inSync_book[OF _ assms(1)]
      simp: book_generateImage book_timeoutFires book_processQueue book_resume
        book_newPage book_taskEnds book_destroyBrowser book_cleanup book_shutdown\<close>)

lemma inSync_run: "inSync st \<Longrightarrow> freshBrowserIds es st \<Longrightarrow> inSync (run es st)"
  by (induction es arbitrary: st) (simp_all add: inSync_step)

lemma inSync_emptyPool: "inSync emptyPool"
  by (simp add: inSync_def emptyPool_def)

text \<open>
  Claim C10. After any sequence of pool operations starting from the empty pool, in which
  a newly drawn browser id is never the id of a browser still in the pool,
  \<^verbatim>\<open>availableBrowsers\<close> lists exactly the keys of \<^verbatim>\<open>browserPool\<close>, each once.
  Hence every browser of the pool is listed whatever its \<^verbatim>\<open>activePages\<close>, also at
  full capacity, and the metric \<^verbatim>\<open>availableBrowsers\<close> equals \<^verbatim>\<open>totalBrowsers\<close>.
\<close>

theorem availableBrowsers_mirrors_browserPool:
  assumes "freshBrowserIds es emptyPool"
  shows "distinct (availableBrowsers (run es emptyPool))
       \<and> set (availableBrowsers (run es emptyPool)) = fst ` set (browserPool (run es emptyPool))
       \<and> (\<forall>b bi. map_of (browserPool (run es emptyPool)) b = Some bi
             \<longrightarrow> b \<in> set (availableBrowsers (run es emptyPool)))
       \<and> availableBrowsersCount (getMetrics (run es emptyPool))
           = totalBrowsers (getMetrics (run es emptyPool))"
proof -
  have sync: "inSync (run es emptyPool)"
    using inSync_emptyPool assms by (rule inSync_run)
  have "b \<in> set (availableBrowsers (run es emptyPool))"
    if "map_of (browserPool (run es emptyPool)) b = Some bi" for b bi
    using that sync by (auto simp: inSync_def dest: map_of_SomeD intro: rev_image_eqI)
  then show ?thesis
    using sync by (simp add: inSync_def getMetrics_def)
qed

text \<open>The theorem at a run that leaves the only browser with ten pages in use: the
  browser is at its page cap, it is still in \<^verbatim>\<open>availableBrowsers\<close>, and the metric
  counts it.\<close>

theorem availableBrowsers_mirrors_browserPool_witness:
  "freshBrowserIds tenTasksOneByOne emptyPool
   \<and> map (\<lambda>(b, bi). (b, activePages bi)) (browserPool (run tenTasksOneByOne emptyPool))
       = [(''b1'', MAX_PAGES_PER_BROWSER)]
   \<and> ''b1'' \<in> set (availableBrowsers (run tenTasksOneByOne emptyPool))
   \<and> availableBrowsersCount (getMetrics (run tenTasksOneByOne emptyPool)) = 1
   \<and> totalBrowsers (getMetrics (run tenTasksOneByOne emptyPool)) = 1"
proof -
  have fresh: "freshBrowserIds tenTasksOneByOne emptyPool"
    by code_simp
  have full: "map (\<lambda>(b, bi). (b, activePages bi)) (browserPool (run tenTasksOneByOne emptyPool))
       = [(''b1'', MAX_PAGES_PER_BROWSER)]"
    by code_simp
  have total: "totalBrowsers (getMetrics (run tenTasksOneByOne emptyPool)) = 1"
    by code_simp
  have present: "map_of (browserPool (run tenTasksOneByOne emptyPool)) ''b1''
      = Some \<lparr> browser = 1, pages = [], activePages = 10, createdAt = 0, lastUsed = 6,
               processingTasks = 10 \<rparr>"
    by code_simp
  note sync = availableBrowsers_mirrors_browserPool [OF fresh]
  from sync present have "''b1'' \<in> set (availableBrowsers (run tenTasksOneByOne emptyPool))"
    by blast
  moreover from sync total
  have "availableBrowsersCount (getMetrics (run tenTasksOneByOne emptyPool)) = 1"
    by simp
  ultimately show ?thesis using fresh full total by simp
qed

subsection \<open>Only validated screenshots are handed out\<close>

text \<open>The validation as an equation on the first three bytes, and the invariant that
  every call of \<^verbatim>\<open>resolve\<close> in the log carries a validated buffer.\<close>

definition jpegSignature :: buffer where
  "jpegSignature = [0xFF, 0xD8, 0xFF]"

lemma isValidJPEG_iff: "isValidJPEG b \<longleftrightarrow> take 3 b = jpegSignature"
proof (cases b)
  case Nil
  then show ?thesis by (simp add: isValidJPEG_def byteAt_def jpegSignature_def)
next
  case (Cons x xs)
  note c1 = this
  show ?thesis
  proof (cases xs)
    case Nil
    then show ?thesis using c1 by (simp add: isValidJPEG_def byteAt_def jpegSignature_def)
  next
    case (Cons y ys)
    then show ?thesis using c1
      by (cases ys) (auto simp: isValidJPEG_def byteAt_def jpegSignature_def)
  qed
qed

lemma validateScreenshot_Inr:
  "validateScreenshot s = Inr b \<longleftrightarrow> s = Some b \<and> b \<noteq> [] \<and> take 3 b = jpegSignature"
  by (auto simp: validateScreenshot_def isValidJPEG_iff split: option.splits)

lemma renderResult_Inr:
  "renderResult r = Inr b \<longleftrightarrow> r = Captured (Some b) \<and> b \<noteq> [] \<and> take 3 b = jpegSignature"
  by (cases r) (auto simp: renderResult_def validateScreenshot_Inr)


definition validImage :: "buffer \<Rightarrow> bool" where
  "validImage b = (b \<noteq> [] \<and> take 3 b = jpegSignature)"

definition settledValid :: "(string \<times> outcome) list \<Rightarrow> bool" where
  "settledValid log = (\<forall>t b. (t, Fulfilled b) \<in> set log \<longrightarrow> validImage b)"

lemma settledValid_append:
  "settledValid (xs @ ys) \<longleftrightarrow> settledValid xs \<and> settledValid ys"
  by (auto simp: settledValid_def)

lemma settledValid_rejections:
  "settledValid (map (\<lambda>t. (f t, Rejected (e t))) ts)"
  by (auto simp: settledValid_def)

lemma settledValid_step:
  assumes "settledValid (settled st)"
  shows "settledValid (settled (step e st))"
proof (cases e)
  case (TaskEnds t r c)
  show ?thesis
  proof (cases "renderResult r")
    case (Inl err)
    then show ?thesis using assms TaskEnds
      by (simp add: poolFrames settledValid_rejections taskEnds_def Let_def settledValid_append split: option.splits)
         (simp add: poolFrames settledValid_rejections settledValid_def)
  next
    case (Inr b)
    then have "validImage b" by (simp add: poolFrames settledValid_rejections renderResult_Inr validImage_def)
    then show ?thesis using assms TaskEnds Inr
      by (simp add: poolFrames settledValid_rejections taskEnds_def Let_def settledValid_append split: option.splits)
         (simp add: poolFrames settledValid_rejections settledValid_def)
  qed
next
  case (GenerateImage t opts now)
  then show ?thesis using assms
    by (simp add: poolFrames settledValid_rejections generateImage_def settledValid_append) (simp add: poolFrames settledValid_rejections settledValid_def)
next
  case (TimeoutFires t)
  then show ?thesis using assms
    by (simp add: poolFrames settledValid_rejections timeoutFires_def settledValid_append) (simp add: poolFrames settledValid_rejections settledValid_def)
next
  case (Resume p now)
  then show ?thesis using assms
    by (simp add: poolFrames settledValid_rejections resumeProcessQueue_def Let_def settledValid_append split: list.splits option.splits)
       (simp add: poolFrames settledValid_rejections settledValid_def)
next
  case (NewPageResolved t p)
  then show ?thesis using assms
    by (simp add: poolFrames settledValid_rejections newPageResolved_def split: option.splits)
next
  case (Cleanup now)
  then show ?thesis using assms
    by (simp add: poolFrames settledValid_rejections cleanup_def Let_def settledValid_append)
next
  case Shutdown
  then show ?thesis using assms
    by (simp add: poolFrames settledValid_rejections shutdown_def Let_def settledValid_append)
next
  case (InitLaunched b h n)
  then show ?thesis using assms by (simp add: poolFrames settledValid_rejections createBrowser_def)
next
  case (LaunchResolved b h n)
  then show ?thesis using assms by (simp add: poolFrames settledValid_rejections createBrowser_def)
next
  case (DestroyBrowserCloses b c)
  then show ?thesis using assms by (simp add: poolFrames settledValid_rejections destroyBrowserCloses_def Let_def)
qed (use assms in \<open>simp_all add: poolFrames settledValid_rejections\<close>)

lemma settledValid_run:
  "settledValid (settled st) \<Longrightarrow> settledValid (settled (run es st))"
  by (induction es arbitrary: st) (simp_all add: settledValid_step)

text \<open>A task picked up, given a page, photographed and resolved.\<close>

definition oneTaskServed :: "event list" where
  "oneTaskServed =
     [InitLaunched ''b1'' 1 0,
      GenerateImage (taskName 0) sampleOptions 5,
      Resume (pageName 0) 6,
      NewPageResolved (taskName 0) 7,
      TaskEnds (taskName 0) (Captured (Some sampleJpeg)) False]"

text \<open>
  Claim C5. Whatever the pool goes through, every buffer passed to a task's
  \<^verbatim>\<open>resolve\<close> is non-empty and starts with the bytes FF D8 FF. \<^verbatim>\<open>executeTask\<close>
  returns a buffer exactly when the browser exists and \<^verbatim>\<open>screenshot()\<close> resolved
  with a buffer that passes this validation, and then it returns that buffer; in every
  other case it throws. A running task whose screenshot fails the validation is
  rejected.
\<close>

theorem fulfilled_buffers_are_valid_jpeg:
  "(\<forall>t b. (t, Fulfilled b) \<in> set (settled (run es emptyPool))
       \<longrightarrow> b \<noteq> [] \<and> take 3 b = [0xFF, 0xD8, 0xFF])
   \<and> (fst (executeTask browserId pageId page now r closeThrows st) = Inr b
       \<longleftrightarrow> map_of (browserPool st) browserId \<noteq> None \<and> r = Captured (Some b)
           \<and> b \<noteq> [] \<and> take 3 b = [0xFF, 0xD8, 0xFF])
   \<and> (find (\<lambda>rt. task_id (run_task rt) = t' \<and> (run_page rt = None) = False) (running st)
         \<noteq> None
       \<longrightarrow> \<not> (\<exists>b'. screenshot = Some b' \<and> b' \<noteq> [] \<and> take 3 b' = [0xFF, 0xD8, 0xFF])
       \<longrightarrow> (\<exists>e. settled (taskEnds t' (Captured screenshot) closeThrows st)
                  = settled st @ [(t', Rejected e)]))"
proof (intro conjI)
  have "settledValid (settled emptyPool)"
    by (simp add: settledValid_def emptyPool_def)
  then have "settledValid (settled (run es emptyPool))"
    by (rule settledValid_run)
  then show "\<forall>t b. (t, Fulfilled b) \<in> set (settled (run es emptyPool))
       \<longrightarrow> b \<noteq> [] \<and> take 3 b = [0xFF, 0xD8, 0xFF]"
    by (simp add: settledValid_def validImage_def jpegSignature_def)
next
  show "fst (executeTask browserId pageId page now r closeThrows st) = Inr b
       \<longleftrightarrow> map_of (browserPool st) browserId \<noteq> None \<and> r = Captured (Some b)
           \<and> b \<noteq> [] \<and> take 3 b = [0xFF, 0xD8, 0xFF]"
    by (cases "map_of (browserPool st) browserId")
       (simp_all add: executeTask_def Let_def renderResult_Inr jpegSignature_def)
next
  show "find (\<lambda>rt. task_id (run_task rt) = t' \<and> (run_page rt = None) = False) (running st)
         \<noteq> None
       \<longrightarrow> \<not> (\<exists>b'. screenshot = Some b' \<and> b' \<noteq> [] \<and> take 3 b' = [0xFF, 0xD8, 0xFF])
       \<longrightarrow> (\<exists>e. settled (taskEnds t' (Captured screenshot) closeThrows st)
                  = settled st @ [(t', Rejected e)])"
  proof (intro impI)
    assume found: "find (\<lambda>rt. task_id (run_task rt) = t' \<and> (run_page rt = None) = False)
        (running st) \<noteq> None"
    assume bad: "\<not> (\<exists>b'. screenshot = Some b' \<and> b' \<noteq> [] \<and> take 3 b' = [0xFF, 0xD8, 0xFF])"
    from bad obtain e where e: "renderResult (Captured screenshot) = Inl e"
      using renderResult_Inr [of "Captured screenshot"]
      by (cases "renderResult (Captured screenshot)") (auto simp: jpegSignature_def)
    from found obtain rt where
      "find (\<lambda>rt. task_id (run_task rt) = t' \<and> (run_page rt = None) = False) (running st)
         = Some rt"
      by blast
    then have "settled (taskEnds t' (Captured screenshot) closeThrows st)
        = settled st @ [(t', Rejected e)]"
      using e by (simp add: taskEnds_def Let_def executeTaskFinally_frame)
    then show "\<exists>e. settled (taskEnds t' (Captured screenshot) closeThrows st)
        = settled st @ [(t', Rejected e)]" ..
  qed
qed

text \<open>The theorem at a run that resolves a task, and at a running task whose screenshot
  comes back empty.\<close>

theorem fulfilled_buffers_are_valid_jpeg_witness:
  "(taskName 0, Fulfilled sampleJpeg) \<in> set (settled (run oneTaskServed emptyPool))
   \<and> sampleJpeg \<noteq> [] \<and> take 3 sampleJpeg = [0xFF, 0xD8, 0xFF]
   \<and> find (\<lambda>rt. task_id (run_task rt) = taskName 0 \<and> (run_page rt = None) = False)
        (running (run (butlast oneTaskServed) emptyPool)) \<noteq> None
   \<and> (\<exists>e. settled (taskEnds (taskName 0) (Captured (Some [])) False
                   (run (butlast oneTaskServed) emptyPool))
            = settled (run (butlast oneTaskServed) emptyPool) @ [(taskName 0, Rejected e)])"
proof -
  have served: "(taskName 0, Fulfilled sampleJpeg) \<in> set (settled (run oneTaskServed emptyPool))"
    by code_simp
  have open_page:
    "find (\<lambda>rt. task_id (run_task rt) = taskName 0 \<and> (run_page rt = None) = False)
        (running (run (butlast oneTaskServed) emptyPool)) \<noteq> None"
    by code_simp
  note inst = fulfilled_buffers_are_valid_jpeg
    [where es = oneTaskServed and t' = "taskName 0"
       and st = "run (butlast oneTaskServed) emptyPool"
       and screenshot = "Some []" and closeThrows = False]
  from inst served have "sampleJpeg \<noteq> [] \<and> take 3 sampleJpeg = [0xFF, 0xD8, 0xFF]"
    by blast
  moreover from inst open_page
  have "\<exists>e. settled (taskEnds (taskName 0) (Captured (Some [])) False
                   (run (butlast oneTaskServed) emptyPool))
            = settled (run (butlast oneTaskServed) emptyPool) @ [(taskName 0, Rejected e)]"
    by simp
  ultimately show ?thesis using served open_page by simp
qed

subsection \<open>What one task leaves behind on its browser\<close>

definition oneBrowser :: pool where
  "oneBrowser = run [InitLaunched ''b1'' 1 0] emptyPool"

lemma update_fresh: "k \<notin> fst ` set al \<Longrightarrow> AList.update k v al = al @ [(k, v)]"
  by (induction al) auto

lemma delete_append_fresh:
  "k \<notin> fst ` set al \<Longrightarrow> AList.delete k (al @ [(k, v)]) = al"
  by (induction al) (auto simp: AList.delete_eq)

lemma map_of_withBrowser:
  "map_of (browserPool (withBrowser b f st)) b' =
     (if b' = b then map_option f (map_of (browserPool st) b) else map_of (browserPool st) b')"
  by (simp add: withBrowser_def update_conv' split: option.splits)

lemma map_of_executeTaskFinally:
  "map_of (browserPool (executeTaskFinally b p h c st)) b' =
     (if b' = b then map_option (taskFinally p h c) (map_of (browserPool st) b)
      else map_of (browserPool st) b')"
  by (simp add: executeTaskFinally_def Let_def map_of_withBrowser split: option.splits)

lemma executeTask_browser:
  assumes "map_of (browserPool st) browserId = Some bi"
  shows "map_of (browserPool (snd (executeTask browserId pageId page now r closeThrows st))) b' =
     (if b' = browserId
      then Some (taskFinally pageId (r \<noteq> NewPageThrows) closeThrows
                  ((if r = NewPageThrows then (\<lambda>x. x) else pageOpened pageId page)
                     (taskBegin now bi)))
      else map_of (browserPool st) b')"
  using assms
  by (simp add: executeTask_def Let_def map_of_executeTaskFinally map_of_withBrowser)

lemma scheduled_executeTask:
  assumes "map_of (browserPool st) browserId = Some bi"
  shows "scheduledDestroy (snd (executeTask browserId pageId page now r closeThrows st)) =
     (if processingTasks bi \<ge> BROWSER_RESTART_THRESHOLD
      then scheduledDestroy st @ [browserId] else scheduledDestroy st)"
  using assms
  by (simp add: executeTask_def Let_def executeTaskFinally_def map_of_withBrowser
        withBrowser_frame taskFinally_def pageOpened_def taskBegin_def)

text \<open>
  Claim C7, as the code has it. Let a task run from start to end on a browser of the
  pool, with a page id not yet in the browser's page map. Afterwards the browser's entry
  is the entry before the task with \<^verbatim>\<open>lastUsed\<close> set: \<^verbatim>\<open>activePages\<close>,
  \<^verbatim>\<open>processingTasks\<close>, \<^verbatim>\<open>browser\<close> and \<^verbatim>\<open>createdAt\<close> are what they were,
  whether the task returned or threw. The page map is what it was when no page was
  opened or \<^verbatim>\<open>page.close()\<close> resolved; when \<^verbatim>\<open>page.close()\<close> rejects, the page stays
  in the map. No other browser changes.
\<close>

theorem executeTask_restores_browser:
  assumes "map_of (browserPool st) browserId = Some bi"
      and "pageId \<notin> fst ` set (pages bi)"
  shows "map_of (browserPool (snd (executeTask browserId pageId page now r closeThrows st)))
           browserId
           = Some (bi\<lparr> lastUsed := now,
                       pages := (if r \<noteq> NewPageThrows \<and> closeThrows
                                 then pages bi @ [(pageId, page)] else pages bi) \<rparr>)
       \<and> (\<forall>b'. b' \<noteq> browserId \<longrightarrow>
             map_of (browserPool (snd (executeTask browserId pageId page now r closeThrows st))) b'
               = map_of (browserPool st) b')"
  using assms
  by (simp add: executeTask_browser taskFinally_def pageOpened_def taskBegin_def Let_def
        update_fresh delete_append_fresh)

text \<open>The theorem at a task that throws after its page was opened and closes its page.\<close>

theorem executeTask_restores_browser_witness:
  "map_of (browserPool oneBrowser) ''b1''
     = Some \<lparr> browser = 1, pages = [], activePages = 0, createdAt = 0, lastUsed = 0,
              processingTasks = 0 \<rparr>
   \<and> ''p1'' \<notin> fst ` set []
   \<and> map_of (browserPool (snd (executeTask ''b1'' ''p1'' 7 5 StageThrows False oneBrowser))) ''b1''
     = Some \<lparr> browser = 1, pages = [], activePages = 0, createdAt = 0, lastUsed = 5,
              processingTasks = 0 \<rparr>"
proof -
  have present: "map_of (browserPool oneBrowser) ''b1''
     = Some \<lparr> browser = 1, pages = [], activePages = 0, createdAt = 0, lastUsed = 0,
              processingTasks = 0 \<rparr>"
    by code_simp
  have fresh: "''p1'' \<notin> fst ` set (pages \<lparr> browser = 1, pages = [], activePages = 0,
      createdAt = 0, lastUsed = 0, processingTasks = 0 \<rparr>)"
    by simp
  from executeTask_restores_browser [OF present fresh, of 7 5 StageThrows False]
  show ?thesis using present by simp
qed

text \<open>Claim C7 as it is written fails where \<^verbatim>\<open>page.close()\<close> rejects: the task below
  returns its screenshot, and its page is still in the browser's page map.\<close>

theorem page_stays_in_map_when_close_rejects:
  "fst (executeTask ''b1'' ''p1'' 7 5 (Captured (Some sampleJpeg)) True oneBrowser)
     = Inr sampleJpeg
   \<and> map_of (browserPool
        (snd (executeTask ''b1'' ''p1'' 7 5 (Captured (Some sampleJpeg)) True oneBrowser))) ''b1''
     = Some \<lparr> browser = 1, pages = [(''p1'', 7)], activePages = 0, createdAt = 0,
              lastUsed = 5, processingTasks = 0 \<rparr>"
  by code_simp

subsection \<open>The restart check\<close>

text \<open>Tasks served one after the other on one browser, each from start to end:
  page id, page handle, clock, what Puppeteer did, whether \<^verbatim>\<open>page.close()\<close> rejects.\<close>

fun tasksInSequence :: "string \<Rightarrow> (string \<times> nat \<times> int \<times> render \<times> bool) list \<Rightarrow> pool \<Rightarrow> pool" where
  "tasksInSequence browserId [] st = st"
| "tasksInSequence browserId ((pageId, page, now, r, closeThrows) # rest) st =
     tasksInSequence browserId rest
       (snd (executeTask browserId pageId page now r closeThrows st))"

definition hundredTasks :: "(string \<times> nat \<times> int \<times> render \<times> bool) list" where
  "hundredTasks =
     map (\<lambda>i. (pageName i, i, int i, Captured (Some sampleJpeg), False)) [0..<100]"

text \<open>The check reads \<^verbatim>\<open>processingTasks\<close>, which every task increments at its start
  and decrements in its \<^verbatim>\<open>finally\<close>: tasks served one at a time never schedule a
  restart, however many they are.\<close>

lemma tasksInSequence_never_restarts:
  assumes "map_of (browserPool st) b = Some bi"
      and "processingTasks bi < BROWSER_RESTART_THRESHOLD"
  shows "scheduledDestroy (tasksInSequence b ts st) = scheduledDestroy st
       \<and> (\<exists>bi'. map_of (browserPool (tasksInSequence b ts st)) b = Some bi'
              \<and> processingTasks bi' = processingTasks bi)"
  using assms
proof (induction ts arbitrary: st bi)
  case Nil
  then show ?case by simp
next
  case (Cons t ts)
  obtain pageId page now r closeThrows where t: "t = (pageId, page, now, r, closeThrows)"
    by (cases t) auto
  let ?st = "snd (executeTask b pageId page now r closeThrows st)"
  let ?bi = "taskFinally pageId (r \<noteq> NewPageThrows) closeThrows
      ((if r = NewPageThrows then (\<lambda>x. x) else pageOpened pageId page) (taskBegin now bi))"
  have entry: "map_of (browserPool ?st) b = Some ?bi"
    using Cons.prems(1) by (simp add: executeTask_browser)
  have count: "processingTasks ?bi = processingTasks bi"
    by (simp add: taskFinally_def pageOpened_def taskBegin_def Let_def)
  have sched: "scheduledDestroy ?st = scheduledDestroy st"
    using Cons.prems by (simp add: scheduled_executeTask)
  from Cons.IH [OF entry] Cons.prems(2) count sched t show ?case by simp
qed

text \<open>
  Claim C2 at a browser that serves one hundred tasks, one after the other: no restart
  has been scheduled and the counter the check reads is back at 0.
\<close>

theorem no_restart_after_hundred_tasks:
  "length hundredTasks = 100
   \<and> scheduledDestroy (tasksInSequence ''b1'' hundredTasks oneBrowser) = []
   \<and> map (\<lambda>(b, bi). (b, processingTasks bi))
         (browserPool (tasksInSequence ''b1'' hundredTasks oneBrowser)) = [(''b1'', 0)]"
  by code_simp

subsection \<open>The page cap\<close>

text \<open>At the moment \<^verbatim>\<open>getAvailableBrowser\<close> picks a browser, that browser is below the
  cap.\<close>

lemma findAvailable_below_cap:
  "findAvailable bp ids = Some b \<Longrightarrow>
     \<exists>bi. map_of bp b = Some bi \<and> activePages bi < MAX_PAGES_PER_BROWSER"
  by (induction ids) (auto split: option.splits if_splits)

lemma getAvailableBrowser_below_cap:
  "getAvailableBrowser st = Found b \<Longrightarrow>
     \<exists>bi. map_of (browserPool st) b = Some bi \<and> activePages bi < MAX_PAGES_PER_BROWSER"
  by (auto simp: getAvailableBrowser_def split: option.splits if_splits
      dest: findAvailable_below_cap)

text \<open>Eleven calls of \<^verbatim>\<open>generateImage\<close> made in one turn of the event loop (for
  instance \<^verbatim>\<open>Promise.all\<close> over eleven requests), against a pool whose only browser is
  idle. Each call runs \<^verbatim>\<open>processQueue\<close> up to \<^verbatim>\<open>await this.getAvailableBrowser()\<close>
  and finds the same browser with \<^verbatim>\<open>activePages = 0\<close>; the eleven continuations run
  afterwards, and each increments \<^verbatim>\<open>activePages\<close>.\<close>

definition elevenCallsInOneTurn :: "event list" where
  "elevenCallsInOneTurn =
     InitLaunched ''b1'' 1 0 #
     map (\<lambda>i. GenerateImage (taskName i) sampleOptions 5) [0..<11] @
     map (\<lambda>i. Resume (pageName i) 6) [0..<11]"

text \<open>
  Claim C3 at that input: the browser ends with eleven pages counted, one more than
  \<^verbatim>\<open>MAX_PAGES_PER_BROWSER\<close>.
\<close>

theorem activePages_exceeds_cap:
  "map (\<lambda>(b, bi). (b, activePages bi)) (browserPool (run elevenCallsInOneTurn emptyPool))
     = [(''b1'', MAX_PAGES_PER_BROWSER + 1)]
   \<and> length (running (run elevenCallsInOneTurn emptyPool)) = 11"
  by code_simp

section \<open>The worker queue: src/services/imageQueueService.ts\<close>

subsection \<open>Data\<close>

definition MAX_WORKERS :: nat where
  "MAX_WORKERS = 4"

definition MAX_QUEUE_SIZE :: nat where
  "MAX_QUEUE_SIZE = 100"

definition TASK_TIMEOUT :: int where
  "TASK_TIMEOUT = 30000"

definition WORKER_RESTART_THRESHOLD :: int where
  "WORKER_RESTART_THRESHOLD = 50"

datatype queueError =
    QueueOverflow
  | ImageTimeout
  | PostMessageFailed
  | WorkerReported "string option"
  | WorkerCrashed

datatype queueOutcome = Resolved buffer | Failed queueError

text \<open>\<^verbatim>\<open>interface ImageGenerationTask\<close>; \<^verbatim>\<open>resolve\<close> and \<^verbatim>\<open>reject\<close> are again
  represented by the id and the log \<open>promises\<close>, and \<open>ig_seq\<close> numbers the accepted
  submissions in their order (it is not a field of the source).\<close>

record ImageGenerationTask =
  ig_id :: string
  ig_html :: string
  ig_width :: int
  ig_height :: int
  ig_quality :: int
  ig_optimizeForSpeed :: bool
  ig_createdAt :: int
  ig_seq :: nat

text \<open>\<^verbatim>\<open>interface WorkerInfo\<close>. The objects are shared between the array
  \<^verbatim>\<open>workers\<close> and the closures of the event handlers registered in
  \<^verbatim>\<open>createWorker\<close>, which keep their object when the array has dropped it. So the
  objects live in a store, addressed by position, and \<^verbatim>\<open>workers\<close> is a list of
  addresses. The \<^verbatim>\<open>worker\<close> field (the thread) is the address itself.\<close>

record WorkerInfo =
  busy :: bool
  currentTaskId :: "string option"
  tasksCompleted :: int

text \<open>The message a worker posts back.\<close>

record workerResult =
  wr_success :: bool
  wr_data :: "buffer option"
  wr_error :: "string option"
  wr_taskId :: "string option"

text \<open>The fields of the class (without the floating-point averages), the object store,
  and the bookkeeping of the model: the log of \<^verbatim>\<open>resolve\<close>/\<open>reject\<close> calls, the tasks
  shifted off the queue in order, the number of accepted submissions, the messages
  posted to workers, and the calls of \<^verbatim>\<open>restartWorker\<close> suspended in
  \<^verbatim>\<open>await workerInfo.worker.terminate()\<close> with the index they computed before.\<close>

record imageQueue =
  workers :: "nat list"
  workerStore :: "WorkerInfo list"
  taskQueue :: "ImageGenerationTask list"
  metricTasksCompleted :: int
  metricTasksQueued :: int
  metricTasksFailed :: int
  promises :: "(string \<times> queueOutcome) list"
  handedOver :: "ImageGenerationTask list"
  accepted :: nat
  posted :: "(nat \<times> string) list"
  restarting :: "int list"

definition emptyQueue :: imageQueue where
  "emptyQueue = \<lparr> workers = [], workerStore = [], taskQueue = [], metricTasksCompleted = 0,
     metricTasksQueued = 0, metricTasksFailed = 0, promises = [], handedOver = [],
     accepted = 0, posted = [], restarting = [] \<rparr>"

subsection \<open>The methods\<close>

text \<open>A mutation through a reference to a worker object.\<close>

definition onWorker :: "nat \<Rightarrow> (WorkerInfo \<Rightarrow> WorkerInfo) \<Rightarrow> imageQueue \<Rightarrow> imageQueue" where
  "onWorker w f st =
     (if w < length (workerStore st)
      then st\<lparr> workerStore := (workerStore st)[w := f (workerStore st ! w)] \<rparr>
      else st)"

text \<open>\<^verbatim>\<open>createWorker\<close>, lines 88-137: \<^verbatim>\<open>new Worker(...)\<close> either throws, and the
  method rethrows after logging, or a new object is pushed.\<close>

definition iq_createWorker :: "bool \<Rightarrow> imageQueue \<Rightarrow> imageQueue" where
  "iq_createWorker constructorThrows st =
     (if constructorThrows then st
      else st\<lparr> workers := workers st @ [length (workerStore st)],
               workerStore := workerStore st @
                 [\<lparr> busy = False, currentTaskId = None, tasksCompleted = 0 \<rparr>] \<rparr>)"

text \<open>\<^verbatim>\<open>handleTaskError\<close>, lines 335-338.\<close>

definition iq_handleTaskError :: "ImageGenerationTask \<Rightarrow> queueError \<Rightarrow> imageQueue \<Rightarrow> imageQueue" where
  "iq_handleTaskError task e st =
     st\<lparr> metricTasksFailed := metricTasksFailed st + 1,
         promises := promises st @ [(ig_id task, Failed e)] \<rparr>"

text \<open>\<^verbatim>\<open>processQueue\<close>, lines 199-228. \<^verbatim>\<open>postMessage\<close> may throw.\<close>

definition iq_processQueue :: "bool \<Rightarrow> imageQueue \<Rightarrow> imageQueue" where
  "iq_processQueue postThrows st =
     (case find (\<lambda>w. \<not> busy (workerStore st ! w)) (workers st) of
        None \<Rightarrow> st
      | Some freeWorker \<Rightarrow>
          (case taskQueue st of
             [] \<Rightarrow> st
           | task # rest \<Rightarrow>
               let st1 = onWorker freeWorker
                           (\<lambda>w. w\<lparr> busy := True, currentTaskId := Some (ig_id task) \<rparr>)
                           (st\<lparr> taskQueue := rest, handedOver := handedOver st @ [task] \<rparr>)
               in if postThrows
                  then onWorker freeWorker (\<lambda>w. w\<lparr> busy := False, currentTaskId := None \<rparr>)
                         (iq_handleTaskError task PostMessageFailed st1)
                  else st1\<lparr> posted := posted st1 @ [(freeWorker, ig_id task)] \<rparr>))"

text \<open>\<^verbatim>\<open>generateImage\<close>, lines 142-194. On a full queue the method throws, which
  rejects the promise it returns: logged under the id the call would have drawn.\<close>

definition iq_generateImage ::
  "string \<Rightarrow> string \<Rightarrow> int \<Rightarrow> int \<Rightarrow> int \<Rightarrow> bool \<Rightarrow> int \<Rightarrow> bool \<Rightarrow> imageQueue \<Rightarrow> imageQueue" where
  "iq_generateImage taskId h width height q speed now postThrows st =
     (if length (taskQueue st) \<ge> MAX_QUEUE_SIZE
      then st\<lparr> promises := promises st @ [(taskId, Failed QueueOverflow)] \<rparr>
      else iq_processQueue postThrows
             (st\<lparr> taskQueue := taskQueue st @
                     [\<lparr> ig_id = taskId, ig_html = h, ig_width = width, ig_height = height,
                        ig_quality = q, ig_optimizeForSpeed = speed, ig_createdAt = now,
                        ig_seq = accepted st \<rparr>],
                  metricTasksQueued := metricTasksQueued st + 1,
                  accepted := accepted st + 1 \<rparr>))"

text \<open>The \<^verbatim>\<open>setTimeout\<close> callback of \<^verbatim>\<open>generateImage\<close>, lines 185-192.\<close>

definition iq_timeoutFires :: "string \<Rightarrow> imageQueue \<Rightarrow> imageQueue" where
  "iq_timeoutFires taskId st =
     (if \<exists>t \<in> set (taskQueue st). ig_id t = taskId
      then st\<lparr> taskQueue := removeFirst (\<lambda>t. ig_id t = taskId) (taskQueue st),
               metricTasksFailed := metricTasksFailed st + 1,
               promises := promises st @ [(taskId, Failed ImageTimeout)] \<rparr>
      else st)"

text \<open>\<^verbatim>\<open>findTaskById\<close>, lines 328-330: a search of \<^verbatim>\<open>taskQueue\<close>. The id may be
  \<^verbatim>\<open>undefined\<close>, which no task has.\<close>

definition iq_findTaskById :: "string option \<Rightarrow> imageQueue \<Rightarrow> ImageGenerationTask option" where
  "iq_findTaskById taskId st =
     (case taskId of
        None \<Rightarrow> None
      | Some x \<Rightarrow> find (\<lambda>task. ig_id task = x) (taskQueue st))"

text \<open>\<^verbatim>\<open>Array.indexOf\<close> (\<open>-1\<close> when absent) and \<^verbatim>\<open>splice(index, 1)\<close>, where a
  negative index counts from the end.\<close>

fun indexOf :: "'a \<Rightarrow> 'a list \<Rightarrow> int" where
  "indexOf x [] = -1"
| "indexOf x (y # ys) = (if x = y then 0 else let i = indexOf x ys in if i < 0 then -1 else i + 1)"

definition spliceOne :: "int \<Rightarrow> 'a list \<Rightarrow> 'a list" where
  "spliceOne i xs =
     (let n = int (length xs);
          j = nat (if i < 0 then max 0 (n + i) else min i n)
      in take j xs @ drop (j + 1) xs)"

text \<open>\<^verbatim>\<open>restartWorker\<close>, lines 307-311, up to \<^verbatim>\<open>await terminate()\<close>; and lines
  312-313 after it: the index computed before the await is used for the splice, then
  \<^verbatim>\<open>createWorker\<close> runs. A rejection of \<^verbatim>\<open>terminate()\<close> or a throwing constructor
  ends in the \<^verbatim>\<open>catch\<close>, which logs.\<close>

definition iq_restartWorker :: "nat \<Rightarrow> imageQueue \<Rightarrow> imageQueue" where
  "iq_restartWorker w st = st\<lparr> restarting := restarting st @ [indexOf w (workers st)] \<rparr>"

definition iq_restartWorkerResumes :: "bool \<Rightarrow> bool \<Rightarrow> imageQueue \<Rightarrow> imageQueue" where
  "iq_restartWorkerResumes terminateThrows constructorThrows st =
     (case restarting st of
        [] \<Rightarrow> st
      | index # rest \<Rightarrow>
          let st1 = st\<lparr> restarting := rest \<rparr>
          in if terminateThrows then st1
             else iq_createWorker constructorThrows
                    (st1\<lparr> workers := spliceOne index (workers st1) \<rparr>))"

text \<open>\<^verbatim>\<open>handleWorkerMessage\<close>, lines 233-273, for the worker object at address \<open>w\<close>.\<close>

definition iq_handleWorkerMessage :: "nat \<Rightarrow> workerResult \<Rightarrow> bool \<Rightarrow> imageQueue \<Rightarrow> imageQueue" where
  "iq_handleWorkerMessage w result postThrows st =
     (case iq_findTaskById (wr_taskId result) st of
        None \<Rightarrow> st
      | Some task \<Rightarrow>
          let st1 = onWorker w
                      (\<lambda>x. x\<lparr> busy := False, currentTaskId := None,
                              tasksCompleted := tasksCompleted x + 1 \<rparr>) st;
              st2 = (case (wr_success result, wr_data result) of
                       (True, Some d) \<Rightarrow>
                         st1\<lparr> metricTasksCompleted := metricTasksCompleted st1 + 1,
                              promises := promises st1 @ [(ig_id task, Resolved d)] \<rparr>
                     | _ \<Rightarrow>
                         st1\<lparr> metricTasksFailed := metricTasksFailed st1 + 1,
                              promises := promises st1 @
                                [(ig_id task, Failed (WorkerReported (wr_error result)))] \<rparr>);
              st3 = (if tasksCompleted (workerStore st2 ! w) \<ge> WORKER_RESTART_THRESHOLD
                     then iq_restartWorker w st2 else st2)
          in iq_processQueue postThrows st3)"

text \<open>\<^verbatim>\<open>handleWorkerError\<close>, lines 278-289.\<close>

definition iq_handleWorkerError :: "nat \<Rightarrow> imageQueue \<Rightarrow> imageQueue" where
  "iq_handleWorkerError w st =
     (let st1 = (case iq_findTaskById (currentTaskId (workerStore st ! w)) st of
                   None \<Rightarrow> st
                 | Some task \<Rightarrow> iq_handleTaskError task WorkerCrashed st);
          st2 = onWorker w (\<lambda>x. x\<lparr> busy := False, currentTaskId := None \<rparr>) st1
      in iq_restartWorker w st2)"

text \<open>\<^verbatim>\<open>handleWorkerExit\<close>, lines 294-302.\<close>

definition iq_handleWorkerExit :: "nat \<Rightarrow> bool \<Rightarrow> imageQueue \<Rightarrow> imageQueue" where
  "iq_handleWorkerExit w constructorThrows st =
     (let index = indexOf w (workers st)
      in if index \<noteq> -1
         then iq_createWorker constructorThrows
                (st\<lparr> workers := spliceOne index (workers st) \<rparr>)
         else st)"

subsection \<open>The queue as a machine\<close>

text \<open>\<open>Submit\<close> is a call of the public \<^verbatim>\<open>generateImage\<close>; \<open>CreateWorker\<close> a step of
  \<^verbatim>\<open>initialize\<close>; the worker events name the worker object whose handler runs and are
  ignored for an address that was never allocated.\<close>

datatype queueEvent =
    Submit string string int int int bool int bool
  | TimerFires string
  | CreateWorker bool
  | WorkerMessage nat workerResult bool
  | WorkerError nat
  | WorkerExit nat bool
  | RestartResumes bool bool

fun queueStep :: "queueEvent \<Rightarrow> imageQueue \<Rightarrow> imageQueue" where
  "queueStep (Submit taskId h width height q speed now postThrows) st =
     iq_generateImage taskId h width height q speed now postThrows st"
| "queueStep (TimerFires taskId) st = iq_timeoutFires taskId st"
| "queueStep (CreateWorker constructorThrows) st = iq_createWorker constructorThrows st"
| "queueStep (WorkerMessage w result postThrows) st =
     (if w < length (workerStore st) then iq_handleWorkerMessage w result postThrows st else st)"
| "queueStep (WorkerError w) st =
     (if w < length (workerStore st) then iq_handleWorkerError w st else st)"
| "queueStep (WorkerExit w constructorThrows) st =
     (if w < length (workerStore st) then iq_handleWorkerExit w constructorThrows st else st)"
| "queueStep (RestartResumes terminateThrows constructorThrows) st =
     iq_restartWorkerResumes terminateThrows constructorThrows st"

fun queueRun :: "queueEvent list \<Rightarrow> imageQueue \<Rightarrow> imageQueue" where
  "queueRun [] st = st"
| "queueRun (e # es) st = queueRun es (queueStep e st)"

subsection \<open>Fields the methods leave alone\<close>

lemma onWorker_frame:
  "taskQueue (onWorker w f st) = taskQueue st"
  "handedOver (onWorker w f st) = handedOver st"
  "accepted (onWorker w f st) = accepted st"
  "promises (onWorker w f st) = promises st"
  "workers (onWorker w f st) = workers st"
  "restarting (onWorker w f st) = restarting st"
  by (simp_all add: onWorker_def)

lemma iq_createWorker_frame:
  "taskQueue (iq_createWorker c st) = taskQueue st"
  "handedOver (iq_createWorker c st) = handedOver st"
  "accepted (iq_createWorker c st) = accepted st"
  "promises (iq_createWorker c st) = promises st"
  by (simp_all add: iq_createWorker_def)

lemma iq_restartWorker_frame:
  "taskQueue (iq_restartWorker w st) = taskQueue st"
  "handedOver (iq_restartWorker w st) = handedOver st"
  "accepted (iq_restartWorker w st) = accepted st"
  "promises (iq_restartWorker w st) = promises st"
  by (simp_all add: iq_restartWorker_def)

lemma iq_restartWorkerResumes_frame:
  "taskQueue (iq_restartWorkerResumes a b st) = taskQueue st"
  "handedOver (iq_restartWorkerResumes a b st) = handedOver st"
  "accepted (iq_restartWorkerResumes a b st) = accepted st"
  "promises (iq_restartWorkerResumes a b st) = promises st"
  by (simp_all add: iq_restartWorkerResumes_def Let_def iq_createWorker_frame split: list.splits)

lemma iq_handleWorkerExit_frame:
  "taskQueue (iq_handleWorkerExit w c st) = taskQueue st"
  "handedOver (iq_handleWorkerExit w c st) = handedOver st"
  "accepted (iq_handleWorkerExit w c st) = accepted st"
  "promises (iq_handleWorkerExit w c st) = promises st"
  by (simp_all add: iq_handleWorkerExit_def Let_def iq_createWorker_frame)

lemma iq_handleTaskError_frame:
  "taskQueue (iq_handleTaskError t e st) = taskQueue st"
  "handedOver (iq_handleTaskError t e st) = handedOver st"
  "accepted (iq_handleTaskError t e st) = accepted st"
  "promises (iq_handleTaskError t e st) = promises st @ [(ig_id t, Failed e)]"
  by (simp_all add: iq_handleTaskError_def)

text \<open>What processQueue does to the queue: nothing, or it shifts the head.\<close>

lemma iq_processQueue_cases:
  "(taskQueue (iq_processQueue p st) = taskQueue st
      \<and> handedOver (iq_processQueue p st) = handedOver st
      \<and> promises (iq_processQueue p st) = promises st)
   \<or> (\<exists>t q. taskQueue st = t # q \<and> taskQueue (iq_processQueue p st) = q
         \<and> handedOver (iq_processQueue p st) = handedOver st @ [t]
         \<and> (promises (iq_processQueue p st) = promises st
             \<or> promises (iq_processQueue p st)
                 = promises st @ [(ig_id t, Failed PostMessageFailed)]))"
  by (simp add: iq_processQueue_def Let_def onWorker_frame iq_handleTaskError_frame
      split: option.splits list.splits)

lemma iq_processQueue_accepted: "accepted (iq_processQueue p st) = accepted st"
  by (simp add: iq_processQueue_def Let_def onWorker_frame iq_handleTaskError_frame
      split: option.splits list.splits)

lemmas queueFrames =
  onWorker_frame iq_createWorker_frame iq_restartWorker_frame iq_restartWorkerResumes_frame
  iq_handleWorkerExit_frame iq_handleTaskError_frame iq_processQueue_accepted

section \<open>Order of dispatch\<close>

text \<open>Both queues are arrays that grow by \<^verbatim>\<open>push\<close> and are served by \<^verbatim>\<open>shift\<close>.
  \<open>fifoOrder queued popped n\<close> relates the submission numbers of the tasks waiting, of the
  tasks already shifted off, and the number of submissions so far: the queue is in
  submission order, and whatever was shifted off is older than whatever still waits.\<close>

definition fifoOrder :: "nat list \<Rightarrow> nat list \<Rightarrow> nat \<Rightarrow> bool" where
  "fifoOrder queued popped n =
     (sorted_wrt (<) queued \<and> (\<forall>s \<in> set queued. s < n) \<and> (\<forall>p \<in> set popped. p < n)
      \<and> (\<forall>p \<in> set popped. \<forall>s \<in> set queued. p < s))"

lemma fifoOrder_push: "fifoOrder q d n \<Longrightarrow> fifoOrder (q @ [n]) d (Suc n)"
  by (auto simp: fifoOrder_def sorted_wrt_append less_Suc_eq)

lemma fifoOrder_pop: "fifoOrder (s # q) d n \<Longrightarrow> fifoOrder q (d @ [s]) n"
  by (auto simp: fifoOrder_def)

lemma set_removeFirst: "set (removeFirst P xs) \<subseteq> set xs"
  by (induction xs) auto

lemma sorted_wrt_removeFirst: "sorted_wrt R xs \<Longrightarrow> sorted_wrt R (removeFirst P xs)"
proof (induction xs)
  case Nil
  then show ?case by simp
next
  case (Cons x xs)
  then show ?case using set_removeFirst [of P xs] by auto
qed

lemma fifoOrder_removeFirst: "fifoOrder q d n \<Longrightarrow> fifoOrder (removeFirst P q) d n"
  using set_removeFirst [of P q] by (auto simp: fifoOrder_def sorted_wrt_removeFirst)

lemma fifoOrder_filter: "fifoOrder q d n \<Longrightarrow> fifoOrder (filter P q) d n"
  by (auto simp: fifoOrder_def sorted_wrt_filter)

lemma fifoOrder_empty: "fifoOrder q d n \<Longrightarrow> fifoOrder [] d n"
  by (auto simp: fifoOrder_def)

definition poolFifo :: "pool \<Rightarrow> bool" where
  "poolFifo st = fifoOrder (map task_seq (processingQueue st)) (map task_seq (dispatched st)) (submitCount st)"

lemma fifoOrder_sub:
  assumes "fifoOrder (map f q) d n" "set q' \<subseteq> set q" "sorted_wrt (<) (map f q')"
  shows "fifoOrder (map f q') d n"
  using assms by (auto simp: fifoOrder_def)

lemma sorted_map_removeFirst:
  "sorted_wrt (<) (map f xs) \<Longrightarrow> sorted_wrt (<) (map f (removeFirst P xs))"
  by (simp add: sorted_wrt_map sorted_wrt_removeFirst)

lemma fifoOrder_map_removeFirst:
  assumes "fifoOrder (map f q) d n"
  shows "fifoOrder (map f (removeFirst P q)) d n"
proof -
  have "sorted_wrt (<) (map f (removeFirst P q))"
    using assms by (simp add: fifoOrder_def sorted_map_removeFirst)
  with assms set_removeFirst [of P q] show ?thesis
    by (rule fifoOrder_sub)
qed

lemma fifoOrder_map_filter:
  assumes "fifoOrder (map f q) d n"
  shows "fifoOrder (map f (filter P q)) d n"
proof -
  have "sorted_wrt (<) (map f (filter P q))"
    using assms by (simp add: fifoOrder_def sorted_wrt_map sorted_wrt_filter)
  moreover have "set (filter P q) \<subseteq> set q"
    by auto
  ultimately show ?thesis
    using assms by (simp add: fifoOrder_sub)
qed

lemma poolFifo_eq:
  "processingQueue s' = processingQueue s \<Longrightarrow> dispatched s' = dispatched s \<Longrightarrow> submitCount s' = submitCount s
   \<Longrightarrow> poolFifo s \<Longrightarrow> poolFifo s'"
  by (simp add: poolFifo_def)

lemma poolFifo_step:
  assumes "poolFifo st"
  shows "poolFifo (step e st)"
proof (cases e)
  case (GenerateImage t opts now)
  show ?thesis
  proof (cases "shutdownInProgress st")
    case True
    then show ?thesis using assms GenerateImage by (simp add: poolFrames generateImage_def poolFifo_def)
  next
    case False
    from assms have "fifoOrder (map task_seq (processingQueue st) @ [submitCount st])
        (map task_seq (dispatched st)) (Suc (submitCount st))"
      unfolding poolFifo_def by (rule fifoOrder_push)
    then show ?thesis using False GenerateImage by (simp add: poolFrames generateImage_def poolFifo_def)
  qed
next
  case (TimeoutFires t)
  have "fifoOrder (map task_seq (removeFirst (\<lambda>x. task_id x = t) (processingQueue st)))
        (map task_seq (dispatched st)) (submitCount st)"
    using assms unfolding poolFifo_def by (rule fifoOrder_map_removeFirst)
  then show ?thesis using assms TimeoutFires by (simp add: poolFrames timeoutFires_def poolFifo_def)
next
  case (Resume p now)
  show ?thesis
  proof (cases "awaitingBrowser st")
    case Nil
    then show ?thesis using assms Resume by (simp add: poolFrames resumeProcessQueue_def)
  next
    case (Cons b bs)
    note aw = this
    show ?thesis
    proof (cases "processingQueue st")
      case Nil
      then show ?thesis using assms Resume aw
        by (simp add: poolFrames resumeProcessQueue_def poolFifo_def)
    next
      case (Cons t q)
      then have "fifoOrder (map task_seq q) (map task_seq (dispatched st) @ [task_seq t]) (submitCount st)"
        using assms by (simp add: poolFrames poolFifo_def fifoOrder_pop)
      then show ?thesis using Resume aw Cons
        by (simp add: poolFrames resumeProcessQueue_def Let_def poolFifo_def split: option.splits)
    qed
  qed
next
  case (Cleanup now)
  have "fifoOrder (map task_seq (filter (\<lambda>t. \<not> now - task_createdAt t > QUEUE_TIMEOUT) (processingQueue st)))
        (map task_seq (dispatched st)) (submitCount st)"
    using assms unfolding poolFifo_def by (rule fifoOrder_map_filter)
  then show ?thesis using Cleanup by (simp add: poolFrames cleanup_def Let_def poolFifo_def)
next
  case Shutdown
  then show ?thesis using assms fifoOrder_empty
    by (simp add: poolFrames shutdown_def Let_def poolFifo_def)
next
  case (NewPageResolved t p)
  then show ?thesis using assms
    by (simp add: poolFrames newPageResolved_def poolFifo_def split: option.splits)
next
  case (TaskEnds t r c)
  then show ?thesis using assms
    by (simp add: poolFrames taskEnds_def Let_def poolFifo_def split: option.splits sum.splits)
next
  case (InitLaunched b h n)
  then show ?thesis using assms by (simp add: poolFrames createBrowser_def poolFifo_def)
next
  case (LaunchResolved b h n)
  then show ?thesis using assms by (simp add: poolFrames createBrowser_def poolFifo_def)
next
  case (DestroyBrowserCloses b c)
  then show ?thesis using assms by (simp add: poolFrames destroyBrowserCloses_def Let_def poolFifo_def)
qed (use assms in \<open>simp_all add: poolFrames poolFifo_def\<close>)

lemma poolFifo_run: "poolFifo st \<Longrightarrow> poolFifo (run es st)"
  by (induction es arbitrary: st) (simp_all add: poolFifo_step)

definition queueFifo :: "imageQueue \<Rightarrow> bool" where
  "queueFifo st = fifoOrder (map ig_seq (taskQueue st)) (map ig_seq (handedOver st)) (accepted st)"

lemma queueFifo_eq:
  "taskQueue s' = taskQueue s \<Longrightarrow> handedOver s' = handedOver s \<Longrightarrow> accepted s' = accepted s
   \<Longrightarrow> queueFifo s \<Longrightarrow> queueFifo s'"
  by (simp add: queueFifo_def)

lemma queueFifo_processQueue:
  assumes "queueFifo st"
  shows "queueFifo (iq_processQueue p st)"
  using iq_processQueue_cases [of p st] assms
  by (auto simp: queueFrames queueFifo_def fifoOrder_pop)

lemma length_processQueue: "length (taskQueue (iq_processQueue p st)) \<le> length (taskQueue st)"
  using iq_processQueue_cases [of p st] by (auto simp: queueFrames)

lemma queueFifo_step:
  assumes "queueFifo st"
  shows "queueFifo (queueStep e st)"
proof (cases e)
  case (Submit t h w ht q sp now p)
  show ?thesis
  proof (cases "length (taskQueue st) \<ge> MAX_QUEUE_SIZE")
    case True
    then show ?thesis using assms Submit by (simp add: queueFrames iq_generateImage_def queueFifo_def)
  next
    case False
    let ?st = "st\<lparr> taskQueue := taskQueue st @
                     [\<lparr> ig_id = t, ig_html = h, ig_width = w, ig_height = ht,
                        ig_quality = q, ig_optimizeForSpeed = sp, ig_createdAt = now,
                        ig_seq = accepted st \<rparr>],
                  metricTasksQueued := metricTasksQueued st + 1,
                  accepted := accepted st + 1 \<rparr>"
    from assms have "queueFifo ?st"
      by (simp add: queueFrames queueFifo_def fifoOrder_push)
    then have "queueFifo (iq_processQueue p ?st)" by (rule queueFifo_processQueue)
    then show ?thesis using False Submit by (simp add: queueFrames iq_generateImage_def)
  qed
next
  case (TimerFires t)
  have "fifoOrder (map ig_seq (removeFirst (\<lambda>x. ig_id x = t) (taskQueue st)))
        (map ig_seq (handedOver st)) (accepted st)"
    using assms unfolding queueFifo_def by (rule fifoOrder_map_removeFirst)
  then show ?thesis using assms TimerFires by (simp add: queueFrames iq_timeoutFires_def queueFifo_def)
next
  case (CreateWorker c)
  then show ?thesis using assms by (simp add: queueFrames queueFifo_def)
next
  case (WorkerMessage w r p)
  show ?thesis
  proof (cases "w < length (workerStore st) \<and> iq_findTaskById (wr_taskId r) st \<noteq> None")
    case False
    then show ?thesis using assms WorkerMessage
      by (auto simp: queueFrames iq_handleWorkerMessage_def)
  next
    case True
    then obtain task where task: "iq_findTaskById (wr_taskId r) st = Some task" by (auto simp: queueFrames)
    define st3 where "st3 = (let st1 = onWorker w
                      (\<lambda>x. x\<lparr> busy := False, currentTaskId := None,
                              tasksCompleted := tasksCompleted x + 1 \<rparr>) st;
              st2 = (case (wr_success r, wr_data r) of
                       (True, Some d) \<Rightarrow>
                         st1\<lparr> metricTasksCompleted := metricTasksCompleted st1 + 1,
                              promises := promises st1 @ [(ig_id task, Resolved d)] \<rparr>
                     | _ \<Rightarrow>
                         st1\<lparr> metricTasksFailed := metricTasksFailed st1 + 1,
                              promises := promises st1 @
                                [(ig_id task, Failed (WorkerReported (wr_error r)))] \<rparr>)
          in (if tasksCompleted (workerStore st2 ! w) \<ge> WORKER_RESTART_THRESHOLD
                     then iq_restartWorker w st2 else st2))"
    have "queueFifo st3"
      using assms by (simp add: queueFrames st3_def Let_def queueFifo_def split: bool.splits option.splits)
    then have "queueFifo (iq_processQueue p st3)" by (rule queueFifo_processQueue)
    moreover have "queueStep e st = iq_processQueue p st3"
      using True task WorkerMessage by (simp add: queueFrames iq_handleWorkerMessage_def st3_def Let_def)
    ultimately show ?thesis by (simp add: queueFrames)
  qed
next
  case (WorkerError w)
  then show ?thesis using assms
    by (simp add: queueFrames iq_handleWorkerError_def Let_def queueFifo_def split: option.splits)
next
  case (WorkerExit w c)
  then show ?thesis using assms by (simp add: queueFrames queueFifo_def)
next
  case (RestartResumes a b)
  then show ?thesis using assms by (simp add: queueFrames queueFifo_def)
qed

lemma queueFifo_run: "queueFifo st \<Longrightarrow> queueFifo (queueRun es st)"
  by (induction es arbitrary: st) (simp_all add: queueFifo_step)

lemma fifoOrder_start: "fifoOrder [] [] 0"
  by (simp add: fifoOrder_def)

text \<open>Three tasks for one browser, the first picked up; three tasks for one worker, the
  first handed over.\<close>

definition threeTasksOnePickedUp :: "event list" where
  "threeTasksOnePickedUp =
     [InitLaunched ''b1'' 1 0,
      GenerateImage (taskName 0) sampleOptions 5,
      GenerateImage (taskName 1) sampleOptions 5,
      GenerateImage (taskName 2) sampleOptions 5,
      Resume (pageName 0) 6]"

definition threeSubmissionsOneWorker :: "queueEvent list" where
  "threeSubmissionsOneWorker =
     [CreateWorker False,
      Submit (taskName 0) ''<html></html>'' 550 800 85 True 5 False,
      Submit (taskName 1) ''<html></html>'' 550 800 85 True 5 False,
      Submit (taskName 2) ''<html></html>'' 550 800 85 True 5 False]"

text \<open>
  Claim C4. In the pool and in the worker queue alike, after any sequence of events: the
  queue holds its tasks in the order they were submitted; every task that was shifted off
  for assignment was submitted before every task still waiting; and the step that assigns
  takes the head of the queue. So no task is assigned while an older one waits.
\<close>

theorem dispatch_is_fifo:
  "sorted_wrt (<) (map task_seq (processingQueue (run es emptyPool)))
   \<and> (\<forall>d \<in> set (dispatched (run es emptyPool)).
        \<forall>t \<in> set (processingQueue (run es emptyPool)). task_seq d < task_seq t)
   \<and> (awaitingBrowser st = b # bs \<longrightarrow> processingQueue st = task # rest
        \<longrightarrow> processingQueue (resumeProcessQueue pageId now st) = rest
            \<and> dispatched (resumeProcessQueue pageId now st) = dispatched st @ [task])
   \<and> sorted_wrt (<) (map ig_seq (taskQueue (queueRun qs emptyQueue)))
   \<and> (\<forall>d \<in> set (handedOver (queueRun qs emptyQueue)).
        \<forall>t \<in> set (taskQueue (queueRun qs emptyQueue)). ig_seq d < ig_seq t)
   \<and> (taskQueue (iq_processQueue postThrows q) = taskQueue q
        \<and> handedOver (iq_processQueue postThrows q) = handedOver q
      \<or> (\<exists>t ts. taskQueue q = t # ts \<and> taskQueue (iq_processQueue postThrows q) = ts
            \<and> handedOver (iq_processQueue postThrows q) = handedOver q @ [t]))"
proof -
  have "poolFifo emptyPool"
    by (simp add: poolFifo_def emptyPool_def fifoOrder_start)
  then have pool: "poolFifo (run es emptyPool)"
    by (rule poolFifo_run)
  have "queueFifo emptyQueue"
    by (simp add: queueFifo_def emptyQueue_def fifoOrder_start)
  then have queue: "queueFifo (queueRun qs emptyQueue)"
    by (rule queueFifo_run)
  have resume: "awaitingBrowser st = b # bs \<longrightarrow> processingQueue st = task # rest
        \<longrightarrow> processingQueue (resumeProcessQueue pageId now st) = rest
            \<and> dispatched (resumeProcessQueue pageId now st) = dispatched st @ [task]"
    by (simp add: resumeProcessQueue_def Let_def withBrowser_frame split: option.splits)
  have shift: "taskQueue (iq_processQueue postThrows q) = taskQueue q
        \<and> handedOver (iq_processQueue postThrows q) = handedOver q
      \<or> (\<exists>t ts. taskQueue q = t # ts \<and> taskQueue (iq_processQueue postThrows q) = ts
            \<and> handedOver (iq_processQueue postThrows q) = handedOver q @ [t])"
    using iq_processQueue_cases [of postThrows q] by blast
  from pool have p1: "sorted_wrt (<) (map task_seq (processingQueue (run es emptyPool)))"
    and p2: "\<forall>d \<in> set (dispatched (run es emptyPool)).
        \<forall>t \<in> set (processingQueue (run es emptyPool)). task_seq d < task_seq t"
    by (simp_all add: poolFifo_def fifoOrder_def)
  from queue have q1: "sorted_wrt (<) (map ig_seq (taskQueue (queueRun qs emptyQueue)))"
    and q2: "\<forall>d \<in> set (handedOver (queueRun qs emptyQueue)).
        \<forall>t \<in> set (taskQueue (queueRun qs emptyQueue)). ig_seq d < ig_seq t"
    by (simp_all add: queueFifo_def fifoOrder_def)
  from p1 p2 resume q1 q2 shift show ?thesis by blast
qed

text \<open>The theorem at runs where one task has been assigned and two wait: the one
  assigned is the first submitted.\<close>

theorem dispatch_is_fifo_witness:
  "map task_seq (dispatched (run threeTasksOnePickedUp emptyPool)) = [0]
   \<and> map task_seq (processingQueue (run threeTasksOnePickedUp emptyPool)) = [1, 2]
   \<and> map ig_seq (handedOver (queueRun threeSubmissionsOneWorker emptyQueue)) = [0]
   \<and> map ig_seq (taskQueue (queueRun threeSubmissionsOneWorker emptyQueue)) = [1, 2]
   \<and> task_seq (hd (dispatched (run threeTasksOnePickedUp emptyPool)))
       < task_seq (last (processingQueue (run threeTasksOnePickedUp emptyPool)))
   \<and> ig_seq (hd (handedOver (queueRun threeSubmissionsOneWorker emptyQueue)))
       < ig_seq (last (taskQueue (queueRun threeSubmissionsOneWorker emptyQueue)))"
proof -
  let ?P = "run threeTasksOnePickedUp emptyPool"
  let ?Q = "queueRun threeSubmissionsOneWorker emptyQueue"
  have a: "map task_seq (dispatched ?P) = [0]"
    by code_simp
  have b: "map task_seq (processingQueue ?P) = [1, 2]"
    by code_simp
  have c: "map ig_seq (handedOver ?Q) = [0]"
    by code_simp
  have d: "map ig_seq (taskQueue ?Q) = [1, 2]"
    by code_simp
  have "dispatched ?P \<noteq> []" "processingQueue ?P \<noteq> []"
    using a b by auto
  then have inP: "hd (dispatched ?P) \<in> set (dispatched ?P)"
      "last (processingQueue ?P) \<in> set (processingQueue ?P)"
    by simp_all
  have "handedOver ?Q \<noteq> []" "taskQueue ?Q \<noteq> []"
    using c d by auto
  then have inQ: "hd (handedOver ?Q) \<in> set (handedOver ?Q)"
      "last (taskQueue ?Q) \<in> set (taskQueue ?Q)"
    by simp_all
  note fifo = dispatch_is_fifo
    [where es = threeTasksOnePickedUp and qs = threeSubmissionsOneWorker]
  from fifo inP have "task_seq (hd (dispatched ?P)) < task_seq (last (processingQueue ?P))"
    by blast
  moreover from fifo inQ have "ig_seq (hd (handedOver ?Q)) < ig_seq (last (taskQueue ?Q))"
    by blast
  ultimately show ?thesis using a b c d by simp
qed

section \<open>Backpressure and settlement in the worker queue\<close>

lemma length_removeFirst: "length (removeFirst P xs) \<le> length xs"
  by (induction xs) auto

lemma iq_handleWorkerMessage_queue:
  "length (taskQueue (iq_handleWorkerMessage w r p st)) \<le> length (taskQueue st)"
proof (cases "iq_findTaskById (wr_taskId r) st")
  case None
  then show ?thesis by (simp add: queueFrames iq_handleWorkerMessage_def)
next
  case (Some task)
  have "length (taskQueue (iq_processQueue p s)) \<le> length (taskQueue s)" for s
    by (rule length_processQueue)
  from this [THEN order_trans] show ?thesis using Some
    by (simp add: queueFrames iq_handleWorkerMessage_def Let_def split: bool.splits option.splits)
qed

lemma queue_bounded_step:
  assumes "length (taskQueue st) \<le> MAX_QUEUE_SIZE"
  shows "length (taskQueue (queueStep e st)) \<le> MAX_QUEUE_SIZE"
proof (cases e)
  case (Submit t h w ht q sp now p)
  show ?thesis
  proof (cases "length (taskQueue st) \<ge> MAX_QUEUE_SIZE")
    case True
    then show ?thesis using assms Submit by (simp add: queueFrames iq_generateImage_def)
  next
    case False
    let ?st = "st\<lparr> taskQueue := taskQueue st @
                     [\<lparr> ig_id = t, ig_html = h, ig_width = w, ig_height = ht,
                        ig_quality = q, ig_optimizeForSpeed = sp, ig_createdAt = now,
                        ig_seq = accepted st \<rparr>],
                  metricTasksQueued := metricTasksQueued st + 1,
                  accepted := accepted st + 1 \<rparr>"
    have "length (taskQueue (iq_processQueue p ?st)) \<le> length (taskQueue ?st)"
      by (rule length_processQueue)
    also have "\<dots> \<le> MAX_QUEUE_SIZE" using False by (simp add: queueFrames)
    finally show ?thesis using False Submit by (simp add: queueFrames iq_generateImage_def)
  qed
next
  case (TimerFires t)
  have "length (removeFirst (\<lambda>x. ig_id x = t) (taskQueue st)) \<le> length (taskQueue st)"
    by (rule length_removeFirst)
  then show ?thesis using assms TimerFires by (simp add: queueFrames iq_timeoutFires_def)
next
  case (WorkerMessage w r p)
  have "length (taskQueue (iq_handleWorkerMessage w r p st)) \<le> length (taskQueue st)"
    by (rule iq_handleWorkerMessage_queue)
  then show ?thesis using assms WorkerMessage by (simp add: queueFrames)
next
  case (WorkerError w)
  then show ?thesis using assms
    by (simp add: queueFrames iq_handleWorkerError_def Let_def split: option.splits)
qed (use assms in \<open>simp_all add: queueFrames\<close>)

lemma queue_bounded_run:
  "length (taskQueue st) \<le> MAX_QUEUE_SIZE \<Longrightarrow> length (taskQueue (queueRun es st)) \<le> MAX_QUEUE_SIZE"
  by (induction es arbitrary: st) (simp_all add: queue_bounded_step)

fun submits :: "string \<Rightarrow> queueEvent \<Rightarrow> bool" where
  "submits x (Submit taskId h width height q speed now postThrows) = (taskId = x)"
| "submits x e = False"

definition outOfReach :: "string \<Rightarrow> imageQueue \<Rightarrow> bool" where
  "outOfReach x st = (x \<notin> ig_id ` set (taskQueue st) \<and> x \<notin> fst ` set (promises st))"

lemma find_in_queue: "find P xs = Some t \<Longrightarrow> t \<in> set xs \<and> P t"
  by (auto simp: find_Some_iff)

lemma iq_findTaskById_in_queue:
  "iq_findTaskById tid st = Some task \<Longrightarrow> task \<in> set (taskQueue st)"
  by (auto simp: iq_findTaskById_def split: option.splits dest: find_in_queue)

lemma outOfReach_processQueue:
  assumes "outOfReach x st"
  shows "outOfReach x (iq_processQueue p st)"
  using iq_processQueue_cases [of p st] assms
  by (auto simp: queueFrames outOfReach_def)

lemma outOfReach_eq:
  "taskQueue s' = taskQueue s \<Longrightarrow> promises s' = promises s \<Longrightarrow> outOfReach x s \<Longrightarrow> outOfReach x s'"
  by (simp add: outOfReach_def)

lemma outOfReach_settle:
  assumes "outOfReach x st" "task \<in> set (taskQueue st)" "taskQueue s' = taskQueue st"
    "promises s' = promises st @ [(ig_id task, out)]"
  shows "outOfReach x s'"
  using assms by (auto simp: outOfReach_def)

lemma outOfReach_step:
  assumes "outOfReach x st" "\<not> submits x e"
  shows "outOfReach x (queueStep e st)"
proof (cases e)
  case (Submit t h w ht q sp now p)
  then have ne: "t \<noteq> x" using assms by (simp add: queueFrames)
  show ?thesis
  proof (cases "length (taskQueue st) \<ge> MAX_QUEUE_SIZE")
    case True
    then show ?thesis using assms ne Submit by (auto simp: queueFrames iq_generateImage_def outOfReach_def)
  next
    case False
    let ?st = "st\<lparr> taskQueue := taskQueue st @
                     [\<lparr> ig_id = t, ig_html = h, ig_width = w, ig_height = ht,
                        ig_quality = q, ig_optimizeForSpeed = sp, ig_createdAt = now,
                        ig_seq = accepted st \<rparr>],
                  metricTasksQueued := metricTasksQueued st + 1,
                  accepted := accepted st + 1 \<rparr>"
    from assms ne have "outOfReach x ?st" by (auto simp: queueFrames outOfReach_def)
    then have "outOfReach x (iq_processQueue p ?st)" by (rule outOfReach_processQueue)
    then show ?thesis using False Submit by (simp add: queueFrames iq_generateImage_def)
  qed
next
  case (TimerFires t)
  show ?thesis using assms TimerFires set_removeFirst [of "\<lambda>task. ig_id task = t" "taskQueue st"]
    by (auto simp: queueFrames iq_timeoutFires_def outOfReach_def)
next
  case (CreateWorker c)
  then show ?thesis using assms by (simp add: queueFrames outOfReach_def)
next
  case (WorkerMessage w r p)
  show ?thesis
  proof (cases "w < length (workerStore st) \<and> iq_findTaskById (wr_taskId r) st \<noteq> None")
    case False
    then show ?thesis using assms WorkerMessage
      by (auto simp: queueFrames iq_handleWorkerMessage_def)
  next
    case True
    then obtain task where task: "iq_findTaskById (wr_taskId r) st = Some task" by (auto simp: queueFrames)
    then have inq: "task \<in> set (taskQueue st)" by (rule iq_findTaskById_in_queue)
    define st3 where "st3 = (let st1 = onWorker w
                      (\<lambda>x. x\<lparr> busy := False, currentTaskId := None,
                              tasksCompleted := tasksCompleted x + 1 \<rparr>) st;
              st2 = (case (wr_success r, wr_data r) of
                       (True, Some d) \<Rightarrow>
                         st1\<lparr> metricTasksCompleted := metricTasksCompleted st1 + 1,
                              promises := promises st1 @ [(ig_id task, Resolved d)] \<rparr>
                     | _ \<Rightarrow>
                         st1\<lparr> metricTasksFailed := metricTasksFailed st1 + 1,
                              promises := promises st1 @
                                [(ig_id task, Failed (WorkerReported (wr_error r)))] \<rparr>)
          in (if tasksCompleted (workerStore st2 ! w) \<ge> WORKER_RESTART_THRESHOLD
                     then iq_restartWorker w st2 else st2))"
    have "taskQueue st3 = taskQueue st"
      by (simp add: queueFrames st3_def Let_def split: bool.splits option.splits)
    moreover have "\<exists>out. promises st3 = promises st @ [(ig_id task, out)]"
      by (simp add: queueFrames st3_def Let_def split: bool.splits option.splits)
    ultimately have "outOfReach x st3"
      using assms(1) inq by (auto intro: outOfReach_settle simp: queueFrames)
    then have "outOfReach x (iq_processQueue p st3)" by (rule outOfReach_processQueue)
    moreover have "queueStep e st = iq_processQueue p st3"
      using True task WorkerMessage by (simp add: queueFrames iq_handleWorkerMessage_def st3_def Let_def)
    ultimately show ?thesis by (simp add: queueFrames)
  qed
next
  case (WorkerError w)
  show ?thesis
  proof (cases "w < length (workerStore st)")
    case False
    then show ?thesis using assms WorkerError by (simp add: queueFrames)
  next
    case True
    show ?thesis
    proof (cases "iq_findTaskById (currentTaskId (workerStore st ! w)) st")
      case None
      then show ?thesis using assms True WorkerError
        by (simp add: queueFrames iq_handleWorkerError_def Let_def outOfReach_def)
    next
      case (Some task)
      then have "task \<in> set (taskQueue st)" by (rule iq_findTaskById_in_queue)
      then show ?thesis using assms True WorkerError Some
        by (auto simp: queueFrames iq_handleWorkerError_def Let_def outOfReach_def)
    qed
  qed
next
  case (WorkerExit w c)
  then show ?thesis using assms by (simp add: queueFrames outOfReach_def)
next
  case (RestartResumes a b)
  then show ?thesis using assms by (simp add: queueFrames outOfReach_def)
qed

lemma outOfReach_run:
  "outOfReach x st \<Longrightarrow> \<forall>e \<in> set es. \<not> submits x e \<Longrightarrow> outOfReach x (queueRun es st)"
  by (induction es arbitrary: st) (simp_all add: outOfReach_step)

text \<open>A hundred submissions to a worker queue without workers, and a hundred calls of
  the pool's \<^verbatim>\<open>generateImage\<close> against a pool without browsers: all of them wait.\<close>

definition hundredSubmissions :: "queueEvent list" where
  "hundredSubmissions =
     map (\<lambda>i. Submit (taskName i) ''<html></html>'' 550 800 85 True 5 False) [0..<100]"

definition hundredPoolCalls :: "event list" where
  "hundredPoolCalls = map (\<lambda>i. GenerateImage (taskName i) sampleOptions 5) [0..<100]"

text \<open>The pool's \<^verbatim>\<open>generateImage\<close> (lines 204-237) tests only
  \<^verbatim>\<open>shutdownInProgress\<close>: otherwise the task is pushed, whatever the length of
  \<^verbatim>\<open>processingQueue\<close>, and nothing is settled by the call.\<close>

lemma pool_generateImage_enqueues:
  assumes "\<not> shutdownInProgress st"
  shows "processingQueue (generateImage taskId opts now st)
           = processingQueue st @
               [\<lparr> task_id = taskId, task_options = opts, task_createdAt = now,
                  task_seq = submitCount st \<rparr>]
       \<and> settled (generateImage taskId opts now st) = settled st"
  using assms by (simp add: generateImage_def processQueue_frame)

lemma pool_generateImage_stays_open:
  "shutdownInProgress (generateImage taskId opts now st) = shutdownInProgress st"
  by (simp add: generateImage_def processQueue_def split: capacity.splits)

lemma pool_calls_all_wait:
  assumes "\<not> shutdownInProgress st"
  shows "length (processingQueue (run (map (\<lambda>i. GenerateImage (f i) opts now) xs) st))
           = length (processingQueue st) + length xs
       \<and> \<not> shutdownInProgress (run (map (\<lambda>i. GenerateImage (f i) opts now) xs) st)
       \<and> settled (run (map (\<lambda>i. GenerateImage (f i) opts now) xs) st) = settled st"
  using assms
proof (induction xs arbitrary: st)
  case Nil
  then show ?case by simp
next
  case (Cons x xs)
  let ?st = "generateImage (f x) opts now st"
  have "\<not> shutdownInProgress ?st"
    using Cons.prems by (simp add: pool_generateImage_stays_open)
  from Cons.IH [OF this] pool_generateImage_enqueues [OF Cons.prems, of "f x" opts now]
  show ?case by simp
qed

lemma hundred_pool_calls_wait:
  "length (processingQueue (run hundredPoolCalls emptyPool)) = 100
   \<and> \<not> shutdownInProgress (run hundredPoolCalls emptyPool)
   \<and> settled (run hundredPoolCalls emptyPool) = []"
proof -
  have "\<not> shutdownInProgress emptyPool"
    by (simp add: emptyPool_def)
  from pool_calls_all_wait [OF this, of taskName sampleOptions 5 "[0..<100]"]
  show ?thesis by (simp add: hundredPoolCalls_def emptyPool_def)
qed

text \<open>
  Claim C6, as the code has it. A call of the worker queue's \<^verbatim>\<open>generateImage\<close> that
  finds \<^verbatim>\<open>MAX_QUEUE_SIZE\<close> or more tasks queued is rejected with the overflow error
  and changes nothing else: the task is not enqueued. After any sequence of events the
  worker queue holds at most \<^verbatim>\<open>MAX_QUEUE_SIZE\<close> tasks. The pool's
  \<^verbatim>\<open>generateImage\<close> has no ceiling: unless shutdown is in progress, every call adds
  its task to \<^verbatim>\<open>processingQueue\<close> and rejects nothing, whatever the queue's length.
\<close>

theorem full_queue_rejects_submission:
  "(length (taskQueue st) \<ge> MAX_QUEUE_SIZE \<longrightarrow>
      iq_generateImage taskId h width height q speed now postThrows st
        = st\<lparr> promises := promises st @ [(taskId, Failed QueueOverflow)] \<rparr>)
   \<and> length (taskQueue (queueRun es emptyQueue)) \<le> MAX_QUEUE_SIZE
   \<and> (\<not> shutdownInProgress p \<longrightarrow>
        length (processingQueue (generateImage taskId' opts now' p))
          = length (processingQueue p) + 1
        \<and> settled (generateImage taskId' opts now' p) = settled p)"
proof -
  have "length (taskQueue emptyQueue) \<le> MAX_QUEUE_SIZE"
    by (simp add: emptyQueue_def)
  then have bound: "length (taskQueue (queueRun es emptyQueue)) \<le> MAX_QUEUE_SIZE"
    by (rule queue_bounded_run)
  have reject: "length (taskQueue st) \<ge> MAX_QUEUE_SIZE \<longrightarrow>
      iq_generateImage taskId h width height q speed now postThrows st
        = st\<lparr> promises := promises st @ [(taskId, Failed QueueOverflow)] \<rparr>"
    by (simp add: iq_generateImage_def)
  have pool: "\<not> shutdownInProgress p \<longrightarrow>
        length (processingQueue (generateImage taskId' opts now' p))
          = length (processingQueue p) + 1
        \<and> settled (generateImage taskId' opts now' p) = settled p"
    using pool_generateImage_enqueues [of p taskId' opts now'] by simp
  from reject bound pool show ?thesis by blast
qed

text \<open>The theorem at a worker queue that holds exactly one hundred tasks, and at a pool
  that holds one hundred.\<close>

theorem full_queue_rejects_submission_witness:
  "length (taskQueue (queueRun hundredSubmissions emptyQueue)) = MAX_QUEUE_SIZE
   \<and> iq_generateImage ''late'' ''<html></html>'' 550 800 85 True 9 False
        (queueRun hundredSubmissions emptyQueue)
      = (queueRun hundredSubmissions emptyQueue)
          \<lparr> promises := promises (queueRun hundredSubmissions emptyQueue)
                          @ [(''late'', Failed QueueOverflow)] \<rparr>
   \<and> \<not> shutdownInProgress (run hundredPoolCalls emptyPool)
   \<and> length (processingQueue
        (generateImage ''late'' sampleOptions 9 (run hundredPoolCalls emptyPool))) = 101"
proof -
  have full: "length (taskQueue (queueRun hundredSubmissions emptyQueue)) = MAX_QUEUE_SIZE"
    by code_simp
  have open_pool: "\<not> shutdownInProgress (run hundredPoolCalls emptyPool)"
    using hundred_pool_calls_wait by blast
  have waiting: "length (processingQueue (run hundredPoolCalls emptyPool)) = 100"
    using hundred_pool_calls_wait by blast
  note inst = full_queue_rejects_submission
    [where st = "queueRun hundredSubmissions emptyQueue" and taskId = "''late''"
       and p = "run hundredPoolCalls emptyPool" and taskId' = "''late''"
       and opts = sampleOptions and now' = 9]
  from inst full have a: "iq_generateImage ''late'' ''<html></html>'' 550 800 85 True 9 False
        (queueRun hundredSubmissions emptyQueue)
      = (queueRun hundredSubmissions emptyQueue)
          \<lparr> promises := promises (queueRun hundredSubmissions emptyQueue)
                          @ [(''late'', Failed QueueOverflow)] \<rparr>"
    by simp
  from inst open_pool waiting have b: "length (processingQueue
        (generateImage ''late'' sampleOptions 9 (run hundredPoolCalls emptyPool))) = 101"
    by simp
  from full a open_pool b show ?thesis by blast
qed

text \<open>Claim C6 as it is written fails at the pool's \<^verbatim>\<open>generateImage\<close>, which the
  claim names as well: with one hundred tasks queued, the next call is not rejected and
  the queue grows to one hundred and one.\<close>

theorem pool_queue_has_no_ceiling:
  "length (processingQueue (run hundredPoolCalls emptyPool)) = MAX_QUEUE_SIZE
   \<and> length (processingQueue
        (generateImage ''late'' sampleOptions 9 (run hundredPoolCalls emptyPool)))
      = MAX_QUEUE_SIZE + 1
   \<and> settled (generateImage ''late'' sampleOptions 9 (run hundredPoolCalls emptyPool)) = []"
  using hundred_pool_calls_wait
    pool_generateImage_enqueues [of "run hundredPoolCalls emptyPool" "''late''" sampleOptions 9]
  by (simp add: MAX_QUEUE_SIZE_def)

text \<open>A task handed to a worker is beyond the reach of every later handler: the
  timer, \<^verbatim>\<open>handleWorkerMessage\<close> and \<^verbatim>\<open>handleWorkerError\<close> all look the task up in
  \<^verbatim>\<open>taskQueue\<close>, from which \<^verbatim>\<open>processQueue\<close> has removed it. Unless the same id is
  submitted again, its promise is never settled.\<close>

lemma handed_over_task_is_never_settled:
  assumes "x \<notin> ig_id ` set (taskQueue st)"
      and "x \<notin> fst ` set (promises st)"
      and "\<forall>e \<in> set es. \<not> submits x e"
  shows "x \<notin> fst ` set (promises (queueRun es st))"
proof -
  from assms(1,2) have "outOfReach x st" by (simp add: outOfReach_def)
  then have "outOfReach x (queueRun es st)" using assms(3) by (rule outOfReach_run)
  then show ?thesis by (simp add: outOfReach_def)
qed

text \<open>One worker, one submission. The task goes to the worker at once; the worker
  answers with a picture under the task's id; thirty seconds after the submission the
  timer fires.\<close>

definition oneSubmissionAnswered :: "queueEvent list" where
  "oneSubmissionAnswered =
     [CreateWorker False,
      Submit ''t1'' ''<html></html>'' 550 800 85 True 0 False,
      WorkerMessage 0 \<lparr> wr_success = True, wr_data = Some sampleJpeg, wr_error = None,
                        wr_taskId = Some ''t1'' \<rparr> False,
      TimerFires ''t1'']"

text \<open>
  Claim C1 at that input: the task was posted to worker 0, and after the worker's
  answer and the timer neither \<^verbatim>\<open>resolve\<close> nor \<^verbatim>\<open>reject\<close> has been called, nothing
  is queued, and the worker is still marked busy.
\<close>

theorem answered_task_is_never_settled:
  "posted (queueRun oneSubmissionAnswered emptyQueue) = [(0, ''t1'')]
   \<and> promises (queueRun oneSubmissionAnswered emptyQueue) = []
   \<and> taskQueue (queueRun oneSubmissionAnswered emptyQueue) = []
   \<and> map busy (workerStore (queueRun oneSubmissionAnswered emptyQueue)) = [True]"
  by code_simp

section \<open>The delivery relay: src/services/simpleBotMessaging.service.ts and src/utils/bufferTest.ts\<close>

subsection \<open>The transport encoding\<close>

text \<open>\<^verbatim>\<open>buffer.toString('base64')\<close> and \<^verbatim>\<open>Buffer.from(s, 'base64')\<close> are built
  into Node.js, not code of this repository. They are modelled here as RFC 4648 defines
  the encoding and as Node implements it: three bytes become four characters of the
  alphabet below, a final group of one or two bytes is padded with \<open>=\<close>, and the decoder
  accepts a final group with or without its padding. The decoder is modelled on the
  strings the relay's regular expression admits: characters of the alphabet, then at most
  two \<open>=\<close>. (Node skips characters outside the alphabet; no such string reaches the
  decoder here.)\<close>

definition base64Alphabet :: string where
  "base64Alphabet = ''ABCDEFGHIJKLMNOPQRSTUVWXYZabcdefghijklmnopqrstuvwxyz0123456789+/''"

definition encodeSextet :: "nat \<Rightarrow> char" where
  "encodeSextet n = base64Alphabet ! n"

fun positionIn :: "'a \<Rightarrow> 'a list \<Rightarrow> nat" where
  "positionIn x [] = 0"
| "positionIn x (y # ys) = (if x = y then 0 else Suc (positionIn x ys))"

definition decodeSextet :: "char \<Rightarrow> nat" where
  "decodeSextet c = positionIn c base64Alphabet"

fun toBase64 :: "buffer \<Rightarrow> string" where
  "toBase64 (a # b # c # rest) =
     encodeSextet (unat a div 4) #
     encodeSextet ((unat a mod 4) * 16 + unat b div 16) #
     encodeSextet ((unat b mod 16) * 4 + unat c div 64) #
     encodeSextet (unat c mod 64) # toBase64 rest"
| "toBase64 [a, b] =
     [encodeSextet (unat a div 4),
      encodeSextet ((unat a mod 4) * 16 + unat b div 16),
      encodeSextet ((unat b mod 16) * 4),
      CHR ''='']"
| "toBase64 [a] =
     [encodeSextet (unat a div 4), encodeSextet ((unat a mod 4) * 16), CHR ''='', CHR ''='']"
| "toBase64 [] = []"

definition byte0 :: "char \<Rightarrow> char \<Rightarrow> 8 word" where
  "byte0 c0 c1 = of_nat (decodeSextet c0 * 4 + decodeSextet c1 div 16)"

definition byte1 :: "char \<Rightarrow> char \<Rightarrow> 8 word" where
  "byte1 c1 c2 = of_nat ((decodeSextet c1 mod 16) * 16 + decodeSextet c2 div 4)"

definition byte2 :: "char \<Rightarrow> char \<Rightarrow> 8 word" where
  "byte2 c2 c3 = of_nat ((decodeSextet c2 mod 4) * 64 + decodeSextet c3)"

text \<open>The decoder reads sextets up to the first \<open>=\<close>: every complete group of four
  gives three bytes, a final group of three gives two bytes, a final group of two gives
  one byte, and a single left-over character gives nothing.\<close>

fun decodeGroups :: "string \<Rightarrow> buffer" where
  "decodeGroups (c0 # c1 # c2 # c3 # rest) =
     byte0 c0 c1 # byte1 c1 c2 # byte2 c2 c3 # decodeGroups rest"
| "decodeGroups [c0, c1, c2] = [byte0 c0 c1, byte1 c1 c2]"
| "decodeGroups [c0, c1] = [byte0 c0 c1]"
| "decodeGroups [c0] = []"
| "decodeGroups [] = []"

definition fromBase64 :: "string \<Rightarrow> buffer" where
  "fromBase64 s = decodeGroups (takeWhile (\<lambda>c. c \<noteq> CHR ''='') s)"

text \<open>The test vectors of RFC 4648 for "Man", "Ma" and "M".\<close>

lemma base64_test_vectors:
  "toBase64 [0x4D, 0x61, 0x6E] = ''TWFu'' \<and> toBase64 [0x4D, 0x61] = ''TWE=''
  \<and> toBase64 [0x4D] = ''TQ==''
  \<and> fromBase64 ''TWFu'' = [0x4D, 0x61, 0x6E] \<and> fromBase64 ''TWE='' = [0x4D, 0x61] \<and> fromBase64 ''TQ=='' = [0x4D]"
  by code_simp

lemma positionIn_nth: "distinct xs \<Longrightarrow> n < length xs \<Longrightarrow> positionIn (xs ! n) xs = n"
proof (induction xs arbitrary: n)
  case Nil
  then show ?case by simp
next
  case (Cons x xs)
  then show ?case by (cases n) auto
qed

lemma distinct_alphabet: "distinct base64Alphabet"
  by (simp add: base64Alphabet_def)

lemma length_alphabet: "length base64Alphabet = 64"
  by (simp add: base64Alphabet_def)

lemma pad_not_in_alphabet: "CHR ''='' \<notin> set base64Alphabet"
  by (simp add: base64Alphabet_def)

lemma decode_encode: "n < 64 \<Longrightarrow> decodeSextet (encodeSextet n) = n"
  by (simp add: decodeSextet_def encodeSextet_def positionIn_nth distinct_alphabet length_alphabet)

lemma encode_in_alphabet: "n < 64 \<Longrightarrow> encodeSextet n \<in> set base64Alphabet"
  by (simp add: encodeSextet_def length_alphabet)

lemma encode_not_pad: "n < 64 \<Longrightarrow> encodeSextet n \<noteq> CHR ''=''"
  using encode_in_alphabet pad_not_in_alphabet by metis

lemma byte_bound: "unat (a :: 8 word) < 256"
  using unsigned_less [of a, where 'a = nat] by simp

lemma join0: "b < 256 \<Longrightarrow> (a div 4) * 4 + ((a mod 4) * 16 + b div 16) div 16 = (a::nat)"
  by simp

lemma join1: "b < 256 \<Longrightarrow> c < 256 \<Longrightarrow> (((a mod 4) * 16 + b div 16) mod 16) * 16 + ((b mod 16) * 4 + c div 64) div 4 = (b::nat)"
  by simp

lemma join2: "c < 256 \<Longrightarrow> (((b mod 16) * 4 + c div 64) mod 4) * 64 + c mod 64 = (c::nat)"
  by simp


lemma sextet_bounds:
  "unat (a :: 8 word) div 4 < 64"
  "(unat (a :: 8 word) mod 4) * 16 + unat (b :: 8 word) div 16 < 64"
  "(unat (b :: 8 word) mod 16) * 4 + unat (c :: 8 word) div 64 < 64"
  "unat (c :: 8 word) mod 64 < 64"
  "(unat (a :: 8 word) mod 4) * 16 < 64"
  "(unat (b :: 8 word) mod 16) * 4 < 64"
  using byte_bound [of a] byte_bound [of b] byte_bound [of c] by simp_all

lemma fromBase64_toBase64: "fromBase64 (toBase64 b) = b"
proof -
  have "decodeGroups (takeWhile (\<lambda>c. c \<noteq> CHR ''='') (toBase64 b)) = b"
  proof (induction b rule: toBase64.induct)
    case (1 a b c rest)
    then show ?case
      using byte_bound [of a] byte_bound [of b] byte_bound [of c]
      by (simp add: encode_not_pad decode_encode sextet_bounds byte0_def byte1_def byte2_def
          join0 join1 join2)
  next
    case (2 a b)
    then show ?case
      using byte_bound [of a] byte_bound [of b]
      by (simp add: encode_not_pad decode_encode sextet_bounds byte0_def byte1_def
          join0 join1 [where c = 0, simplified])
  next
    case (3 a)
    then show ?case
      using byte_bound [of a]
      by (simp add: encode_not_pad decode_encode sextet_bounds byte0_def
          join0 [where b = 0, simplified])
  next
    case 4
    then show ?case by simp
  qed
  then show ?thesis by (simp add: fromBase64_def)
qed

text \<open>Strings the regular expression admits but no encoder produces: a lone sextet
  before the padding decodes to the empty buffer.\<close>

lemma fromBase64_short_inputs:
  "fromBase64 ''A='' = [] \<and> fromBase64 ''A=='' = [] \<and> fromBase64 ''=='' = []
   \<and> fromBase64 ''QQ='' = [0x41] \<and> fromBase64 ''QQ'' = [0x41]"
  by code_simp

subsection \<open>The conversion test and the receiving side\<close>

text \<open>\<^verbatim>\<open>testBufferConversion\<close>, bufferTest.ts lines 8-153. The checks of
  \<^verbatim>\<open>Buffer.isBuffer\<close> hold by typing; the logging is left out.\<close>

definition testBufferConversion :: "buffer \<Rightarrow> bool" where
  "testBufferConversion originalBuffer =
     (if length originalBuffer = 0 then False
      else let base64String = toBase64 originalBuffer
           in if length base64String = 0 then False
              else let convertedBuffer = fromBase64 base64String
                   in if length convertedBuffer = 0 then False
                      else if length originalBuffer \<noteq> length convertedBuffer then False
                      else if originalBuffer \<noteq> convertedBuffer then False
                      else if base64String \<noteq> toBase64 convertedBuffer then False
                      else True)"

text \<open>The regular expression \<^verbatim>\<open>/^[A-Za-z0-9+/]*={0,2}$/\<close> of \<^verbatim>\<open>handleImageTask\<close>:
  after the longest prefix of alphabet characters nothing, \<open>=\<close> or \<open>==\<close> remains.\<close>

definition base64Regex :: "string \<Rightarrow> bool" where
  "base64Regex s =
     (let padding = dropWhile (\<lambda>c. c \<in> set base64Alphabet) s
      in padding = [] \<or> padding = ''='' \<or> padding = ''=='')"

text \<open>\<^verbatim>\<open>handleImageTask\<close>, lines 98-151: the owning process turns the transported
  string back into a buffer, and rejects an empty string, a string that fails the
  regular expression, an empty result, and a result that does not re-encode to the
  string it came from.\<close>

datatype conversionError = NotAString | BadFormat | EmptyResult | IntegrityCheckFailed

definition convertTaskImage :: "string \<Rightarrow> conversionError + buffer" where
  "convertTaskImage imageBuffer =
     (if imageBuffer = [] then Inl NotAString
      else if \<not> base64Regex imageBuffer then Inl BadFormat
      else let buf = fromBase64 imageBuffer
           in if length buf = 0 then Inl EmptyResult
              else if toBase64 buf \<noteq> imageBuffer then Inl IntegrityCheckFailed
              else Inr buf)"

lemma toBase64_empty_iff: "toBase64 b = [] \<longleftrightarrow> b = []"
  by (induction b rule: toBase64.induct) simp_all

lemma testBufferConversion_iff: "testBufferConversion b \<longleftrightarrow> b \<noteq> []"
  by (simp add: testBufferConversion_def Let_def fromBase64_toBase64 toBase64_empty_iff)

lemma base64Regex_toBase64: "base64Regex (toBase64 b)"
proof (induction b rule: toBase64.induct)
  case (1 a b c rest)
  then show ?case
    by (simp add: base64Regex_def Let_def encode_in_alphabet sextet_bounds)
next
  case (2 a b)
  then show ?case
    by (simp add: base64Regex_def Let_def encode_in_alphabet sextet_bounds pad_not_in_alphabet)
next
  case (3 a)
  then show ?case
    by (simp add: base64Regex_def Let_def encode_in_alphabet sextet_bounds pad_not_in_alphabet)
next
  case 4
  then show ?case by (simp add: base64Regex_def)
qed

lemma convertTaskImage_toBase64:
  "convertTaskImage (toBase64 b) = (if b = [] then Inl NotAString else Inr b)"
  by (simp add: convertTaskImage_def Let_def base64Regex_toBase64 fromBase64_toBase64
      toBase64_empty_iff)

text \<open>
  Claim C8. For every byte buffer, decoding its base64 string gives the buffer back,
  byte for byte: same length, same leading bytes; encoding the decoded buffer gives the
  same string again. \<^verbatim>\<open>testBufferConversion\<close> accepts every non-empty buffer, and the
  receiving side of the relay recovers every non-empty buffer from its encoding.
\<close>

theorem base64_round_trip:
  "fromBase64 (toBase64 b) = b
   \<and> length (fromBase64 (toBase64 b)) = length b
   \<and> take 3 (fromBase64 (toBase64 b)) = take 3 b
   \<and> toBase64 (fromBase64 (toBase64 b)) = toBase64 b
   \<and> testBufferConversion b = (b \<noteq> [])
   \<and> convertTaskImage (toBase64 b) = (if b = [] then Inl NotAString else Inr b)"
  by (simp add: fromBase64_toBase64 testBufferConversion_iff convertTaskImage_toBase64)

subsection \<open>The sender\<close>

text \<open>\<^verbatim>\<open>validateImageBuffer\<close>, lines 366-458, without the logging. The size in
  megabytes exceeds 20 exactly when the length exceeds 20 * 1024 * 1024.\<close>

definition validateImageBuffer :: "buffer \<Rightarrow> bool" where
  "validateImageBuffer buffer =
     (if length buffer = 0 then False
      else if length buffer < 1024 then False
      else if length buffer > 20 * (1024 * 1024) then False
      else isValidJPEG buffer)"

text \<open>What the owning process stores under \<^verbatim>\<open>image_result:<id>\<close>, the task the
  sender pushes to \<^verbatim>\<open>image_send_queue\<close>, and the part of Redis the relay uses. The
  JSON text of the source is kept as the record it encodes.\<close>

record deliveryResult =
  dr_success :: bool
  dr_timestamp :: int
  dr_error :: "string option"

record ImageTask =
  it_id :: string
  it_chatId :: int
  it_imageBuffer :: string
  it_caption :: string
  it_timestamp :: int

record redis =
  image_send_queue :: "ImageTask list"
  image_result :: "(string \<times> deliveryResult) list"

text \<open>What \<^verbatim>\<open>sendImage\<close> does not decide itself: whether this is the process with
  \<^verbatim>\<open>pm_id = '0'\<close>, whether the bot is available, what the direct send returns
  (\<open>None\<close>: it throws), which Redis calls reject, and what the other processes and key
  expiry do to the store while the sender awaits its \<^verbatim>\<open>rpush\<close> (\<open>duringPush\<close>) and
  while it sleeps after its \<open>i\<close>-th poll (\<open>others\<close>).\<close>

record senderEnv =
  isMasterProcess :: bool
  botAvailable :: bool
  directSend :: "bool option"
  rpushThrows :: bool
  getThrows :: "nat \<Rightarrow> bool"
  delThrows :: bool
  duringPush :: "redis \<Rightarrow> redis"
  others :: "nat \<Rightarrow> redis \<Rightarrow> redis"

text \<open>The polling loop, lines 329-351: \<^verbatim>\<open>for (let i = 0; i < 450; i++)\<close>, here with
  the number of polls left and the index of the poll. A rejected Redis call lands in the
  outer \<^verbatim>\<open>catch\<close>, which returns \<^verbatim>\<open>false\<close>. The entry is deleted only on the path
  that found it.\<close>

fun awaitResult :: "nat \<Rightarrow> nat \<Rightarrow> senderEnv \<Rightarrow> string \<Rightarrow> redis \<Rightarrow> bool \<times> redis" where
  "awaitResult 0 i env taskId r = (False, r)"
| "awaitResult (Suc n) i env taskId r =
     (if getThrows env i then (False, r)
      else case map_of (image_result r) taskId of
             Some result \<Rightarrow>
               if delThrows env then (False, r)
               else (dr_success result,
                     r\<lparr> image_result := AList.delete taskId (image_result r) \<rparr>)
           | None \<Rightarrow> awaitResult n (Suc i) env taskId (others env i r))"

definition rpush :: "ImageTask \<Rightarrow> redis \<Rightarrow> redis" where
  "rpush task r = r\<lparr> image_send_queue := image_send_queue r @ [task] \<rparr>"

definition WAIT_POLLS :: nat where
  "WAIT_POLLS = 450"

text \<open>\<^verbatim>\<open>sendImage\<close>, lines 210-361. A direct send that throws falls through to the
  queue, as the source's comment says.\<close>

definition sendImage ::
  "senderEnv \<Rightarrow> string \<Rightarrow> int \<Rightarrow> int \<Rightarrow> buffer \<Rightarrow> string \<Rightarrow> redis \<Rightarrow> bool \<times> redis" where
  "sendImage env taskId now chatId imageBuffer caption r =
     (if \<not> validateImageBuffer imageBuffer then (False, r)
      else case (if isMasterProcess env \<and> botAvailable env then directSend env else None) of
             Some result \<Rightarrow> (result, r)
           | None \<Rightarrow>
               if \<not> isValidJPEG imageBuffer then (False, r)
               else if \<not> testBufferConversion imageBuffer then (False, r)
               else let base64String = toBase64 imageBuffer
                    in if length base64String = 0 then (False, r)
                       else if rpushThrows env then (False, r)
                       else awaitResult WAIT_POLLS 0 env taskId
                              (duringPush env
                                (rpush \<lparr> it_id = taskId, it_chatId = chatId,
                                         it_imageBuffer = base64String,
                                         it_caption = caption, it_timestamp = now \<rparr> r)))"

text \<open>The store after the other processes have acted during \<open>n\<close> sleeps, starting with
  the sleep after poll \<open>i\<close>: what becomes of the store when the sender itself writes
  nothing.\<close>

fun drift :: "senderEnv \<Rightarrow> nat \<Rightarrow> nat \<Rightarrow> redis \<Rightarrow> redis" where
  "drift env i 0 r = r"
| "drift env i (Suc n) r = drift env (Suc i) n (others env i r)"

lemma drift_Suc: "drift env i (Suc n) r = others env (i + n) (drift env i n r)"
  by (induction n arbitrary: i r) simp_all

lemma awaitResult_unanswered:
  assumes "\<forall>j < n. \<not> getThrows env (i + j) \<and> map_of (image_result (drift env i j r)) taskId = None"
  shows "awaitResult n i env taskId r = (False, drift env i n r)"
  using assms
proof (induction n arbitrary: i r)
  case 0
  then show ?case by simp
next
  case (Suc n)
  from Suc.prems have here: "\<not> getThrows env i" "map_of (image_result r) taskId = None"
    by (auto dest: spec [of _ 0])
  have "\<forall>j < n. \<not> getThrows env (Suc i + j)
      \<and> map_of (image_result (drift env (Suc i) j (others env i r))) taskId = None"
  proof (intro allI impI)
    fix j assume "j < n"
    then have "Suc j < Suc n" by simp
    with Suc.prems have "\<not> getThrows env (i + Suc j)
        \<and> map_of (image_result (drift env i (Suc j) r)) taskId = None"
      by blast
    then show "\<not> getThrows env (Suc i + j)
        \<and> map_of (image_result (drift env (Suc i) j (others env i r))) taskId = None"
      by simp
  qed
  from Suc.IH [OF this] here show ?case by simp
qed

lemma awaitResult_False_or_found:
  "fst (awaitResult n i env taskId r) = True \<Longrightarrow>
     \<exists>j < n. \<exists>res. map_of (image_result (drift env i j r)) taskId = Some res \<and> dr_success res"
proof (induction n arbitrary: i r)
  case 0
  then show ?case by simp
next
  case (Suc n)
  show ?case
  proof (cases "map_of (image_result r) taskId")
    case (Some res)
    with Suc.prems have "dr_success res" by (simp split: if_splits)
    with Some show ?thesis by (intro exI [of _ 0]) simp
  next
    case None
    with Suc.prems have "fst (awaitResult n (Suc i) env taskId (others env i r)) = True"
      by (simp split: if_splits)
    from Suc.IH [OF this] obtain j res where "j < n"
      "map_of (image_result (drift env (Suc i) j (others env i r))) taskId = Some res" "dr_success res"
      by blast
    then show ?thesis by (intro exI [of _ "Suc j"]) auto
  qed
qed

lemma validated_is_jpeg: "validateImageBuffer b \<Longrightarrow> isValidJPEG b \<and> b \<noteq> []"
  by (auto simp: validateImageBuffer_def split: if_splits)

lemma sendImage_enqueued:
  assumes "validateImageBuffer imageBuffer"
      and "\<not> (isMasterProcess env \<and> botAvailable env \<and> directSend env \<noteq> None)"
      and "\<not> rpushThrows env"
  shows "sendImage env taskId now chatId imageBuffer caption r =
     awaitResult WAIT_POLLS 0 env taskId
       (duringPush env
         (rpush \<lparr> it_id = taskId, it_chatId = chatId, it_imageBuffer = toBase64 imageBuffer,
                  it_caption = caption, it_timestamp = now \<rparr> r))"
  using assms validated_is_jpeg [OF assms(1)]
  by (auto simp: sendImage_def Let_def testBufferConversion_iff toBase64_empty_iff
      split: option.splits)


lemma drift_idle:
  assumes "\<forall>j. i \<le> j \<and> j < i + n \<longrightarrow> others env j = (\<lambda>r. r)"
  shows "drift env i n r = r"
  using assms
proof (induction n arbitrary: i r)
  case 0
  then show ?case by simp
next
  case (Suc n)
  have "others env i = (\<lambda>r. r)" using Suc.prems by simp
  moreover have "drift env (Suc i) n r = r" using Suc.prems by (intro Suc.IH) simp
  ultimately show ?case by simp
qed

text \<open>Example inputs: a 1024-byte buffer with the JPEG signature, and an owning process
  that never answers.\<close>

definition emptyRedis :: redis where
  "emptyRedis = \<lparr> image_send_queue = [], image_result = [] \<rparr>"

definition paddedJpeg :: buffer where
  "paddedJpeg = [0xFF, 0xD8, 0xFF] @ replicate 1021 0"

definition silentOwner :: senderEnv where
  "silentOwner = \<lparr> isMasterProcess = False, botAvailable = False, directSend = None,
     rpushThrows = False, getThrows = (\<lambda>i. False), delThrows = False,
     duringPush = (\<lambda>r. r), others = (\<lambda>i r. r) \<rparr>"

definition sampleTask :: ImageTask where
  "sampleTask = \<lparr> it_id = ''task1'', it_chatId = 42, it_imageBuffer = toBase64 paddedJpeg,
     it_caption = ''caption'', it_timestamp = 0 \<rparr>"

lemma validate_paddedJpeg: "validateImageBuffer paddedJpeg"
  by (simp add: validateImageBuffer_def paddedJpeg_def isValidJPEG_iff jpegSignature_def)

text \<open>While no result is in the store at any poll or after any sleep, the loop answers
  \<^verbatim>\<open>false\<close> and hands back the store as the other processes left it at the moment it
  stopped (after its last sleep, or at the poll whose Redis call was rejected).\<close>

lemma awaitResult_no_result:
  assumes "\<forall>j \<le> n. map_of (image_result (drift env i j r)) taskId = None"
  shows "fst (awaitResult n i env taskId r) = False
       \<and> (\<exists>j \<le> n. snd (awaitResult n i env taskId r) = drift env i j r)"
  using assms
proof (induction n arbitrary: i r)
  case 0
  then show ?case by simp
next
  case (Suc n)
  from Suc.prems have here: "map_of (image_result r) taskId = None"
    by (auto dest: spec [of _ 0])
  show ?case
  proof (cases "getThrows env i")
    case True
    then have "awaitResult (Suc n) i env taskId r = (False, drift env i 0 r)" by simp
    then show ?thesis by (metis fst_conv snd_conv le0)
  next
    case False
    have "\<forall>j \<le> n. map_of (image_result (drift env (Suc i) j (others env i r))) taskId = None"
    proof (intro allI impI)
      fix j assume "j \<le> n"
      then have "Suc j \<le> Suc n" by simp
      with Suc.prems have "map_of (image_result (drift env i (Suc j) r)) taskId = None"
        by blast
      then show "map_of (image_result (drift env (Suc i) j (others env i r))) taskId = None"
        by simp
    qed
    from Suc.IH [OF this] obtain j where j: "j \<le> n"
      "fst (awaitResult n (Suc i) env taskId (others env i r)) = False"
      "snd (awaitResult n (Suc i) env taskId (others env i r))
         = drift env (Suc i) j (others env i r)"
      by blast
    have same: "awaitResult (Suc n) i env taskId r
        = awaitResult n (Suc i) env taskId (others env i r)"
      using False here by simp
    have "snd (awaitResult (Suc n) i env taskId r) = drift env i (Suc j) r"
      using same j(3) by simp
    moreover have "Suc j \<le> Suc n" using j(1) by simp
    ultimately show ?thesis using same j(2) by metis
  qed
qed

text \<open>
  Claim C9. Let the sender enqueue a delivery task (the buffer passes validation, the
  image is not sent directly, \<^verbatim>\<open>rpush\<close> succeeds), and let no result for the task
  appear in the result store within the wait budget: none at any of the 450 polls and
  none after any of the 450 sleeps of 100 ms. Then \<^verbatim>\<open>sendImage\<close> returns
  \<^verbatim>\<open>false\<close>: the value is returned, not thrown, also when a Redis call is rejected; and
  the store it leaves holds no result entry for the task. When no Redis call is rejected
  it returns after exactly 450 polls, having written nothing but the task: it does not
  poll further.
\<close>

theorem unanswered_delivery_resolves_false:
  assumes "validateImageBuffer imageBuffer"
      and "\<not> (isMasterProcess env \<and> botAvailable env \<and> directSend env \<noteq> None)"
      and "\<not> rpushThrows env"
      and "\<forall>j \<le> WAIT_POLLS.
             map_of (image_result
                  (drift env 0 j
                    (duringPush env
                      (rpush \<lparr> it_id = taskId, it_chatId = chatId,
                               it_imageBuffer = toBase64 imageBuffer,
                               it_caption = caption, it_timestamp = now \<rparr> r)))) taskId = None"
  shows "fst (sendImage env taskId now chatId imageBuffer caption r) = False
       \<and> map_of (image_result (snd (sendImage env taskId now chatId imageBuffer caption r)))
            taskId = None
       \<and> ((\<forall>j < WAIT_POLLS. \<not> getThrows env j) \<longrightarrow>
            sendImage env taskId now chatId imageBuffer caption r =
              (False,
               drift env 0 WAIT_POLLS
                 (duringPush env
                   (rpush \<lparr> it_id = taskId, it_chatId = chatId,
                            it_imageBuffer = toBase64 imageBuffer,
                            it_caption = caption, it_timestamp = now \<rparr> r))))"
proof -
  let ?r = "duringPush env
      (rpush \<lparr> it_id = taskId, it_chatId = chatId, it_imageBuffer = toBase64 imageBuffer,
               it_caption = caption, it_timestamp = now \<rparr> r)"
  have loop: "sendImage env taskId now chatId imageBuffer caption r
      = awaitResult WAIT_POLLS 0 env taskId ?r"
    by (rule sendImage_enqueued [OF assms(1-3)])
  from awaitResult_no_result [OF assms(4)] obtain j where j: "j \<le> WAIT_POLLS"
    "fst (awaitResult WAIT_POLLS 0 env taskId ?r) = False"
    "snd (awaitResult WAIT_POLLS 0 env taskId ?r) = drift env 0 j ?r"
    by blast
  have false: "fst (sendImage env taskId now chatId imageBuffer caption r) = False"
    using loop j(2) by simp
  have clean: "map_of (image_result (snd (sendImage env taskId now chatId imageBuffer caption r)))
      taskId = None"
    using loop j(1,3) assms(4) by simp
  have exact: "sendImage env taskId now chatId imageBuffer caption r
      = (False, drift env 0 WAIT_POLLS ?r)"
    if quiet: "\<forall>j < WAIT_POLLS. \<not> getThrows env j"
  proof -
    have "\<forall>j < WAIT_POLLS. \<not> getThrows env (0 + j)
        \<and> map_of (image_result (drift env 0 j ?r)) taskId = None"
      using quiet assms(4) by simp
    then have "awaitResult WAIT_POLLS 0 env taskId ?r = (False, drift env 0 WAIT_POLLS ?r)"
      by (rule awaitResult_unanswered)
    with loop show ?thesis by simp
  qed
  from false clean exact show ?thesis by blast
qed

text \<open>The theorem at an owning process that never answers.\<close>

theorem unanswered_delivery_resolves_false_witness:
  "validateImageBuffer paddedJpeg
   \<and> \<not> (isMasterProcess silentOwner \<and> botAvailable silentOwner \<and> directSend silentOwner \<noteq> None)
   \<and> \<not> rpushThrows silentOwner
   \<and> fst (sendImage silentOwner ''task1'' 0 42 paddedJpeg ''caption'' emptyRedis) = False
   \<and> map_of (image_result
        (snd (sendImage silentOwner ''task1'' 0 42 paddedJpeg ''caption'' emptyRedis)))
        ''task1'' = None
   \<and> sendImage silentOwner ''task1'' 0 42 paddedJpeg ''caption'' emptyRedis
       = (False, \<lparr> image_send_queue = [sampleTask], image_result = [] \<rparr>)"
proof -
  have idle: "drift silentOwner 0 n r = r" for n r
    by (rule drift_idle) (simp add: silentOwner_def)
  have quiet: "\<forall>j \<le> WAIT_POLLS.
             map_of (image_result
                  (drift silentOwner 0 j
                    (duringPush silentOwner
                      (rpush \<lparr> it_id = ''task1'', it_chatId = 42,
                               it_imageBuffer = toBase64 paddedJpeg,
                               it_caption = ''caption'', it_timestamp = 0 \<rparr> emptyRedis))))
                  ''task1'' = None"
    by (simp add: idle) (simp add: silentOwner_def rpush_def emptyRedis_def)
  have direct: "\<not> (isMasterProcess silentOwner \<and> botAvailable silentOwner
      \<and> directSend silentOwner \<noteq> None)"
    by (simp add: silentOwner_def)
  have push: "\<not> rpushThrows silentOwner"
    by (simp add: silentOwner_def)
  have calm: "\<forall>j < WAIT_POLLS. \<not> getThrows silentOwner j"
    by (simp add: silentOwner_def)
  note inst = unanswered_delivery_resolves_false [OF validate_paddedJpeg direct push quiet]
  from inst have a: "fst (sendImage silentOwner ''task1'' 0 42 paddedJpeg ''caption'' emptyRedis)
      = False"
    by blast
  from inst have b: "map_of (image_result
        (snd (sendImage silentOwner ''task1'' 0 42 paddedJpeg ''caption'' emptyRedis)))
        ''task1'' = None"
    by blast
  from inst calm have "sendImage silentOwner ''task1'' 0 42 paddedJpeg ''caption'' emptyRedis
       = (False, drift silentOwner 0 WAIT_POLLS
           (duringPush silentOwner
             (rpush \<lparr> it_id = ''task1'', it_chatId = 42,
                      it_imageBuffer = toBase64 paddedJpeg,
                      it_caption = ''caption'', it_timestamp = 0 \<rparr> emptyRedis)))"
    by blast
  then have c: "sendImage silentOwner ''task1'' 0 42 paddedJpeg ''caption'' emptyRedis
       = (False, \<lparr> image_send_queue = [sampleTask], image_result = [] \<rparr>)"
    by (simp add: idle) (simp add: silentOwner_def rpush_def emptyRedis_def sampleTask_def)
  from a b c validate_paddedJpeg direct push show ?thesis by blast
qed

end
